theory Spec2Isabelle
  imports Complex_Main "HOL-Library.Word"
begin

section \<open>A chained hash table: the model of hash\_table.c\<close>

text \<open>
  The C code keeps a table of bucket heads; each bucket is a singly linked chain of
  \<open>ht_entry\<close> structs. The model keeps every pointer the code stores or returns as an
  address, and keeps what a pointer to an entry or to the bucket array refers to next to it:
  \<^item> a chain is the list of the entries reached from the bucket head through \<open>pNext\<close>; the
    empty list is the \<open>NULL\<close> pointer, the tail of a list is what \<open>pNext\<close> points to;
  \<^item> the bucket array \<open>ppEntries\<close> is the list of its chains;
  \<^item> a key pointer is the list of the bytes it addresses (the table only reads through it),
    \<open>None\<close> being \<open>NULL\<close>;
  \<^item> a value pointer is an address into the heap, since the table stores and returns it;
  \<^item> every dereference of \<open>NULL\<close>, division by zero, failed \<open>assert\<close> and read out of
    range is a \<open>fault\<close>, returned as \<open>Inl\<close>.
\<close>

subsection \<open>Types and constants (hash\_table.h)\<close>

type_synonym byte = "8 word"
type_synonym ht_size_t = "32 word"
type_synonym ht_hash_t = "64 word"
type_synonym addr = nat

abbreviation NULL :: addr where "NULL \<equiv> 0"

definition HT_OK :: int where "HT_OK = 0"
definition HT_NOT_FOUND :: int where "HT_NOT_FOUND = 10"
definition HT_DUPLICATE :: int where "HT_DUPLICATE = 11"
definition HT_ALLOC_ERR :: int where "HT_ALLOC_ERR = 12"
definition HT_ARG_NULL :: int where "HT_ARG_NULL = 13"
definition HT_CORRUPTED :: int where "HT_CORRUPTED = 14"
definition HT_MISUSE :: int where "HT_MISUSE = 15"

definition HT_DEFAULT_CAP :: ht_size_t where "HT_DEFAULT_CAP = 31"
definition HT_GROW_FACT :: ht_size_t where "HT_GROW_FACT = 2"
definition HT_NO_SIZE :: ht_size_t where "HT_NO_SIZE = - 1"

text \<open>
  \<open>HT_MAX_CAP\<close> is the \<open>double\<close> constant 0.7. The one place that uses it compares
  \<open>size + 1\<close> with \<open>capacity * HT_MAX_CAP\<close>; the model makes that comparison in exact
  real arithmetic.
\<close>

definition HT_MAX_CAP :: real where "HT_MAX_CAP = 7 / 10"

text \<open>
  \<open>ht_free_func_t\<close>: \<open>HT_TRANSIENT\<close> is \<open>(void*)0\<close>, \<open>HT_STATIC\<close> is \<open>(void*)-1\<close>,
  and any other value is the address of a caller's release function.
\<close>

datatype ht_free_func_t = HT_TRANSIENT | HT_STATIC | FreeFunc nat

datatype fault = NullDeref | DivByZero | AssertFail | OutOfBounds

text \<open>
  \<open>ht_hash_func_t\<close>: a hash function reads the key bytes and the key size. It can abort
  (the default one asserts), so it returns a fault or a hash.
\<close>

type_synonym ht_hash_func_t = "byte list \<Rightarrow> ht_size_t \<Rightarrow> fault + ht_hash_t"

subsection \<open>The heap: malloc, calloc, free, memcpy\<close>

datatype block = Raw "byte list" | EntryStruct | BucketArray | TableStruct

text \<open>
  \<open>blocks\<close> are the live allocations (and the caller's buffers) with what they hold; the
  fields of an entry struct and the slots of a bucket array are kept in the table value, so
  their blocks only record that the storage is live. \<open>brk\<close> is the last address handed
  out. \<open>alloc_fails\<close> decides the coming allocation requests in order (\<open>True\<close>: the
  request returns \<open>NULL\<close>); once it is used up, requests succeed. \<open>junk\<close> is the pointer
  value found in storage that \<open>malloc\<close> returned and nobody has written yet.
  \<open>released\<close> logs the calls of the callers' release functions.
\<close>

record heap =
  blocks :: "addr \<rightharpoonup> block"
  brk :: addr
  alloc_fails :: "bool list"
  junk :: addr
  released :: "(nat \<times> addr) list"

definition malloc :: "block \<Rightarrow> heap \<Rightarrow> addr \<times> heap" where
  "malloc b h =
     (let fails = (case alloc_fails h of [] \<Rightarrow> False | f # _ \<Rightarrow> f);
          h1 = h\<lparr>alloc_fails := tl (alloc_fails h)\<rparr>
      in if fails then (NULL, h1)
         else (Suc (brk h), h1\<lparr>blocks := (blocks h)(Suc (brk h) \<mapsto> b), brk := Suc (brk h)\<rparr>))"

definition free :: "addr \<Rightarrow> heap \<Rightarrow> heap" where
  "free a h = h\<lparr>blocks := (blocks h)(a := None)\<rparr>"

text \<open>\<open>memcpy(dst, src, n)\<close>, the source given by the bytes it addresses.\<close>

definition memcpy :: "addr \<Rightarrow> byte list \<Rightarrow> ht_size_t \<Rightarrow> heap \<Rightarrow> fault + heap" where
  "memcpy dst src n h =
     (if dst = NULL then Inl NullDeref
      else if length src < unat n then Inl OutOfBounds
      else Inr (h\<lparr>blocks := (blocks h)(dst \<mapsto> Raw (take (unat n) src))\<rparr>))"

text \<open>The bytes a value pointer addresses.\<close>

definition bytes_at :: "heap \<Rightarrow> addr \<Rightarrow> fault + byte list" where
  "bytes_at h p = (case blocks h p of Some (Raw bs) \<Rightarrow> Inr bs | _ \<Rightarrow> Inl OutOfBounds)"

subsection \<open>Structs\<close>

text \<open>
  \<open>struct ht_entry\<close>. \<open>entry_at\<close> is the address of the struct itself (the value of a
  pointer to it); \<open>pNext\<close> is the rest of the chain the entry stands in.
\<close>

record ht_entry =
  entry_at :: addr
  pKey :: addr
  key_size :: ht_size_t
  pData :: addr
  data_size :: ht_size_t
  pfnFree :: ht_free_func_t
  hash :: ht_hash_t

text \<open>
  \<open>struct hash_table\<close>. \<open>ppEntries\<close> is the bucket array, \<open>ppEntries_at\<close> its
  address. The field \<open>size\<close> is called \<open>size_ht\<close> here.
\<close>

record hash_table =
  ppEntries :: "ht_entry list list"
  ppEntries_at :: addr
  size_ht :: ht_size_t
  capacity :: ht_size_t
  pfnHash :: "ht_hash_func_t option"

subsection \<open>default\_hash\_impl\<close>

text \<open>The loop \<open>for(i = 0; i < key_size; ++i)\<close> over the key bytes.\<close>

function sdbm_loop :: "byte list \<Rightarrow> nat \<Rightarrow> nat \<Rightarrow> ht_hash_t \<Rightarrow> fault + ht_hash_t" where
  "sdbm_loop raw i n hv =
     (if i < n
      then (if i < length raw
            then sdbm_loop raw (Suc i) n (ucast (raw ! i) + push_bit 6 hv + push_bit 16 hv - hv)
            else Inl OutOfBounds)
      else Inr hv)"
  by pat_completeness auto
termination
  by (relation "measure (\<lambda>(raw, i, n, hv). n - i)") auto

declare sdbm_loop.simps [simp del]

definition default_hash_impl :: ht_hash_func_t where
  "default_hash_impl key ksz =
     (if ksz = HT_NO_SIZE then Inl AssertFail else sdbm_loop key 0 (unat ksz) 0)"

subsection \<open>Bucket access\<close>

text \<open>\<open>hash % capacity\<close>, computed in 64 bits and stored in an \<open>ht_size_t\<close>.\<close>

definition hash_pos_of :: "ht_hash_t \<Rightarrow> ht_size_t \<Rightarrow> fault + nat" where
  "hash_pos_of hv cap =
     (if cap = 0 then Inl DivByZero
      else Inr (unat (ucast (hv mod ucast cap) :: ht_size_t)))"

text \<open>\<open>ppEntries[i]\<close>\<close>

definition bucket_at :: "ht_entry list list \<Rightarrow> nat \<Rightarrow> fault + ht_entry list" where
  "bucket_at arr i = (if i < length arr then Inr (arr ! i) else Inl OutOfBounds)"

subsection \<open>hash\_exists\<close>

text \<open>
  The loop \<open>while(entry != NULL && rc == 0)\<close>; \<open>found\<close> is what \<open>*ppFound_entry\<close>
  holds.
\<close>

fun hash_exists_loop ::
  "ht_hash_t \<Rightarrow> ht_entry list \<Rightarrow> int \<Rightarrow> ht_entry option \<Rightarrow> int \<times> ht_entry option" where
  "hash_exists_loop hv [] rc found = (rc, found)"
| "hash_exists_loop hv (e # nxt) rc found =
     (if rc = 0
      then (if hash e = hv then hash_exists_loop hv nxt 1 (Some e)
            else hash_exists_loop hv nxt rc found)
      else (rc, found))"

definition hash_exists :: "hash_table \<Rightarrow> ht_hash_t \<Rightarrow> fault + (int \<times> ht_entry option)" where
  "hash_exists t hv =
     (case hash_pos_of hv (capacity t) of Inl f \<Rightarrow> Inl f
      | Inr pos \<Rightarrow>
     (case bucket_at (ppEntries t) pos of Inl f \<Rightarrow> Inl f
      | Inr entry \<Rightarrow> Inr (hash_exists_loop hv entry 0 None)))"

subsection \<open>place\_item\<close>

text \<open>
  The loop of the collision branch: \<open>exist_entry\<close> walks to the entry whose \<open>pNext\<close> is
  \<open>NULL\<close>, and \<open>pEntry\<close> is linked behind it.
\<close>

fun link_tail :: "ht_entry \<Rightarrow> ht_entry list \<Rightarrow> ht_entry \<Rightarrow> ht_entry list" where
  "link_tail exist_entry [] pEntry = [exist_entry, pEntry]"
| "link_tail exist_entry (n # nn) pEntry = exist_entry # link_tail n nn pEntry"

definition place_item ::
  "ht_entry list list \<Rightarrow> ht_size_t \<Rightarrow> ht_entry \<Rightarrow> fault + ht_entry list list" where
  "place_item arr cap pEntry =
     (if cap = HT_NO_SIZE then Inl AssertFail
      else case hash_pos_of (hash pEntry) cap of Inl f \<Rightarrow> Inl f
      | Inr pos \<Rightarrow>
     (case bucket_at arr pos of Inl f \<Rightarrow> Inl f
      | Inr [] \<Rightarrow> Inr (arr[pos := [pEntry]])
      | Inr (exist_entry # nxt) \<Rightarrow> Inr (arr[pos := link_tail exist_entry nxt pEntry])))"

subsection \<open>free\_item\<close>

definition free_item :: "ht_entry \<Rightarrow> heap \<Rightarrow> heap" where
  "free_item pEntry h =
     (let h1 = (if pData pEntry \<noteq> NULL
                then (case pfnFree pEntry of
                        HT_TRANSIENT \<Rightarrow> free (pData pEntry) h
                      | HT_STATIC \<Rightarrow> h
                      | FreeFunc fn \<Rightarrow> h\<lparr>released := released h @ [(fn, pData pEntry)]\<rparr>)
                else h);
          h2 = (if pKey pEntry \<noteq> NULL then free (pKey pEntry) h1 else h1)
      in free (entry_at pEntry) h2)"

subsection \<open>grow\_table\<close>

text \<open>The inner loop: one old chain, entry by entry, is placed into the new array.\<close>

fun grow_chain ::
  "ht_entry list \<Rightarrow> ht_entry list list \<Rightarrow> ht_size_t \<Rightarrow> fault + ht_entry list list" where
  "grow_chain [] new_array new_cap = Inr new_array"
| "grow_chain (entry # tmp_next) new_array new_cap =
     (case place_item new_array new_cap entry of Inl f \<Rightarrow> Inl f
      | Inr arr \<Rightarrow> grow_chain tmp_next arr new_cap)"

text \<open>The outer loop \<open>for(i = 0; i < pHt->capacity; ++i)\<close>.\<close>

function grow_buckets ::
  "hash_table \<Rightarrow> nat \<Rightarrow> ht_entry list list \<Rightarrow> ht_size_t \<Rightarrow> fault + ht_entry list list" where
  "grow_buckets t i new_array new_cap =
     (if i < unat (capacity t)
      then (case bucket_at (ppEntries t) i of Inl f \<Rightarrow> Inl f
            | Inr entry \<Rightarrow>
           (case grow_chain entry new_array new_cap of Inl f \<Rightarrow> Inl f
            | Inr arr \<Rightarrow> grow_buckets t (Suc i) arr new_cap))
      else Inr new_array)"
  by pat_completeness auto
termination
  by (relation "measure (\<lambda>(t, i, a, c). unat (capacity t) - i)") auto

declare grow_buckets.simps [simp del]

definition grow_table :: "hash_table \<Rightarrow> heap \<Rightarrow> fault + (int \<times> hash_table \<times> heap)" where
  "grow_table t h =
     (let new_cap = capacity t * HT_GROW_FACT;
          (new_at, h1) = malloc BucketArray h
      in if new_at = NULL then Inr (HT_ALLOC_ERR, t, h1)
         else case grow_buckets t 0 (replicate (unat new_cap) []) new_cap of Inl f \<Rightarrow> Inl f
         | Inr new_array \<Rightarrow>
             Inr (HT_OK,
                  t\<lparr>capacity := new_cap, ppEntries := new_array, ppEntries_at := new_at\<rparr>,
                  free (ppEntries_at t) h1))"

subsection \<open>ht\_get\_item, ht\_get\_size, ht\_has\_key\<close>

text \<open>A call through the function pointer \<open>pHt->pfnHash\<close>.\<close>

definition call_hash ::
  "ht_hash_func_t option \<Rightarrow> byte list \<Rightarrow> ht_size_t \<Rightarrow> fault + ht_hash_t" where
  "call_hash pfn key ksz = (case pfn of None \<Rightarrow> Inl NullDeref | Some fn \<Rightarrow> fn key ksz)"

text \<open>
  The output parameters \<open>ppData\<close> and \<open>pData_size\<close> are given by what they point to
  before the call (\<open>None\<close>: the pointer is \<open>NULL\<close>) and returned as what they point to
  after it.
\<close>

definition ht_get_item ::
  "hash_table option \<Rightarrow> byte list option \<Rightarrow> ht_size_t \<Rightarrow> addr option \<Rightarrow> ht_size_t option
     \<Rightarrow> fault + (int \<times> addr option \<times> ht_size_t option)" where
  "ht_get_item pHt pKey_arg ksz ppData pData_size =
     (case (pHt, pKey_arg, ppData, pData_size) of
        (Some t, Some key, Some _, Some _) \<Rightarrow>
          (case call_hash (pfnHash t) key ksz of Inl f \<Rightarrow> Inl f
           | Inr hv \<Rightarrow>
          (case hash_exists t hv of Inl f \<Rightarrow> Inl f
           | Inr (ex, found) \<Rightarrow>
               if ex \<noteq> 0
               then (case found of None \<Rightarrow> Inl NullDeref
                     | Some pEntry \<Rightarrow>
                         Inr (HT_OK, Some (pData pEntry), Some (data_size pEntry)))
               else Inr (HT_NOT_FOUND, Some NULL, Some HT_NO_SIZE)))
      | _ \<Rightarrow> Inr (HT_ARG_NULL, ppData, pData_size))"

definition ht_get_size :: "hash_table option \<Rightarrow> ht_size_t" where
  "ht_get_size pHt = (case pHt of None \<Rightarrow> HT_NO_SIZE | Some t \<Rightarrow> size_ht t)"

definition ht_has_key ::
  "hash_table option \<Rightarrow> byte list option \<Rightarrow> ht_size_t \<Rightarrow> fault + int" where
  "ht_has_key pHt pKey_arg ksz =
     (case (pHt, pKey_arg) of
        (Some t, Some key) \<Rightarrow>
          (case call_hash (pfnHash t) key ksz of Inl f \<Rightarrow> Inl f
           | Inr hv \<Rightarrow>
          (case hash_exists t hv of Inl f \<Rightarrow> Inl f
           | Inr (rc, found) \<Rightarrow> Inr rc))
      | _ \<Rightarrow> Inr 0)"

subsection \<open>ht\_init\<close>

text \<open>
  \<open>ppHt_null\<close> says whether the output pointer \<open>ppHt\<close> is \<open>NULL\<close>; the result carries
  the table \<open>*ppHt\<close> refers to after the call. The test after the first \<open>malloc\<close> looks
  at \<open>ppHt\<close>, not at \<open>*ppHt\<close>, so a failed \<open>malloc\<close> of the table struct reaches
  \<open>(*ppHt)->ppEntries\<close>. After a failed \<open>calloc\<close> the struct is freed and \<open>*ppHt\<close>
  is left dangling: no table.
\<close>

definition ht_init :: "bool \<Rightarrow> heap \<Rightarrow> fault + (int \<times> hash_table option \<times> heap)" where
  "ht_init ppHt_null h =
     (if ppHt_null then Inr (HT_ARG_NULL, None, h)
      else let (ht_at, h1) = malloc TableStruct h
      in if ht_at = NULL then Inl NullDeref
         else let (arr_at, h2) = malloc BucketArray h1
         in if arr_at = NULL then Inr (HT_ALLOC_ERR, None, free ht_at h2)
            else Inr (HT_OK,
                      Some \<lparr>ppEntries = replicate (unat HT_DEFAULT_CAP) [],
                            ppEntries_at = arr_at,
                            size_ht = 0,
                            capacity = HT_DEFAULT_CAP,
                            pfnHash = Some default_hash_impl\<rparr>,
                      h2))"

subsection \<open>ht\_insert\<close>

text \<open>
  The test \<open>(pHt->size + 1) > pHt->capacity * HT_MAX_CAP\<close>: the sum is an
  \<open>ht_size_t\<close>, the product a \<open>double\<close>.
\<close>

definition needs_growth :: "hash_table \<Rightarrow> bool" where
  "needs_growth t \<longleftrightarrow> real (unat (size_ht t + 1)) > real (unat (capacity t)) * HT_MAX_CAP"

text \<open>
  The second half of \<open>ht_insert\<close>, from \<open>new_entry = malloc(sizeof(ht_entry))\<close> to the
  end, with the \<open>error\<close> label.
  \<^item> When the key copy cannot be allocated, the error path reads \<open>new_entry->pData\<close>,
    which nobody has written: it holds \<open>junk\<close>.
  \<^item> After the \<open>malloc\<close> of the value copy the code tests \<open>new_entry\<close>, which is not
    \<open>NULL\<close> there, so a failed \<open>malloc\<close> reaches \<open>memcpy\<close> with a \<open>NULL\<close>
    destination.
\<close>

definition insert_entry ::
  "hash_table \<Rightarrow> byte list \<Rightarrow> ht_size_t \<Rightarrow> addr \<Rightarrow> ht_size_t \<Rightarrow> ht_free_func_t \<Rightarrow> ht_hash_t
     \<Rightarrow> heap \<Rightarrow> fault + (int \<times> hash_table option \<times> heap)" where
  "insert_entry t key ksz pData_arg dsz pfn hv h =
     (let (new_entry, h1) = malloc EntryStruct h
      in if new_entry = NULL then Inr (HT_ALLOC_ERR, Some t, h1)
      else let (key_at, h2) = malloc (Raw []) h1
      in if key_at = NULL
         then Inr (HT_ALLOC_ERR, Some t,
                   free new_entry
                     (if junk h2 \<noteq> NULL \<and> pfn = HT_TRANSIENT then free (junk h2) h2 else h2))
      else case memcpy key_at key ksz h2 of Inl f \<Rightarrow> Inl f
      | Inr h3 \<Rightarrow>
     (case (if pfn = HT_TRANSIENT
            then (let (data_at, h4) = malloc (Raw []) h3
                  in case bytes_at h4 pData_arg of Inl f \<Rightarrow> Inl f
                     | Inr src \<Rightarrow>
                    (case memcpy data_at src dsz h4 of Inl f \<Rightarrow> Inl f
                     | Inr h5 \<Rightarrow> Inr (data_at, h5)))
            else Inr (pData_arg, h3)) of Inl f \<Rightarrow> Inl f
      | Inr (data_at, h6) \<Rightarrow>
     (case place_item (ppEntries t) (capacity t)
             \<lparr>entry_at = new_entry, pKey = key_at, key_size = ksz, pData = data_at,
              data_size = dsz, pfnFree = pfn, hash = hv\<rparr> of Inl f \<Rightarrow> Inl f
      | Inr arr \<Rightarrow> Inr (HT_OK, Some (t\<lparr>ppEntries := arr, size_ht := size_ht t + 1\<rparr>), h6))))"

definition ht_insert ::
  "hash_table option \<Rightarrow> byte list option \<Rightarrow> ht_size_t \<Rightarrow> addr \<Rightarrow> ht_size_t \<Rightarrow> ht_free_func_t
     \<Rightarrow> heap \<Rightarrow> fault + (int \<times> hash_table option \<times> heap)" where
  "ht_insert pHt pKey_arg ksz pData_arg dsz pfn h =
     (case (pHt, pKey_arg) of
        (Some t, Some key) \<Rightarrow>
          if pData_arg = NULL then Inr (HT_ARG_NULL, pHt, h)
          else (case pfnHash t of None \<Rightarrow> Inr (HT_ARG_NULL, pHt, h)
          | Some fn \<Rightarrow>
          (case fn key ksz of Inl f \<Rightarrow> Inl f
           | Inr hv \<Rightarrow>
          (case hash_exists t hv of Inl f \<Rightarrow> Inl f
           | Inr (ex, found) \<Rightarrow>
               if ex \<noteq> 0 then Inr (HT_DUPLICATE, pHt, h)
               else if needs_growth t
               then (case grow_table t h of Inl f \<Rightarrow> Inl f
                     | Inr (rc, t1, h1) \<Rightarrow>
                         if rc \<noteq> HT_OK then Inr (rc, Some t1, h1)
                         else insert_entry t1 key ksz pData_arg dsz pfn hv h1)
               else insert_entry t key ksz pData_arg dsz pfn hv h)))
      | _ \<Rightarrow> Inr (HT_ARG_NULL, pHt, h))"

subsection \<open>ht\_remove\<close>

text \<open>
  The loop \<open>while(pEntry->pNext != NULL && !done)\<close> of the \<open>else\<close> branch. \<open>walked\<close>
  are the entries of the chain in front of \<open>pEntry\<close>, \<open>cur\<close> is the chain from
  \<open>pEntry\<close> on (empty: \<open>pEntry\<close> is \<open>NULL\<close>, and the loop test dereferences it). The
  last statement of the body, \<open>pEntry = pEntry->pNext\<close>, runs after a removal too, and
  then reads the link that was just rewritten. The result is the chain, \<open>done\<close>, the size
  and the heap; \<open>rc\<close> is assigned \<open>HT_OK\<close> exactly where \<open>done\<close> is set.
\<close>

fun remove_walk ::
  "ht_hash_t \<Rightarrow> ht_entry list \<Rightarrow> ht_entry list \<Rightarrow> bool \<Rightarrow> ht_size_t \<Rightarrow> heap
     \<Rightarrow> fault + (ht_entry list \<times> bool \<times> ht_size_t \<times> heap)" where
  "remove_walk hv walked [] done sz h = Inl NullDeref"
| "remove_walk hv walked [pEntry] done sz h = Inr (walked @ [pEntry], done, sz, h)"
| "remove_walk hv walked (pEntry # pTmp # nn) done sz h =
     (if done then Inr (walked @ pEntry # pTmp # nn, done, sz, h)
      else if hash pTmp = hv
      then remove_walk hv (walked @ [pEntry]) nn True (sz - 1) (free_item pTmp h)
      else remove_walk hv (walked @ [pEntry]) (pTmp # nn) done sz h)"

text \<open>
  \<open>ht_remove\<close>. The branch for an empty bucket assigns \<open>rc\<close> and is not followed by
  \<open>else\<close>: control goes on to \<open>pEntry->hash\<close> with \<open>pEntry\<close> being \<open>NULL\<close>.
\<close>

definition ht_remove ::
  "hash_table option \<Rightarrow> byte list option \<Rightarrow> ht_size_t \<Rightarrow> heap
     \<Rightarrow> fault + (int \<times> hash_table option \<times> heap)" where
  "ht_remove pHt pKey_arg ksz h =
     (case (pHt, pKey_arg) of
        (Some t, Some key) \<Rightarrow>
          (case call_hash (pfnHash t) key ksz of Inl f \<Rightarrow> Inl f
           | Inr hv \<Rightarrow>
          (case hash_pos_of hv (capacity t) of Inl f \<Rightarrow> Inl f
           | Inr pos \<Rightarrow>
          (case bucket_at (ppEntries t) pos of Inl f \<Rightarrow> Inl f
           | Inr [] \<Rightarrow> Inl NullDeref
           | Inr (pEntry # nxt) \<Rightarrow>
               if hash pEntry = hv
               then Inr (HT_OK,
                         Some (t\<lparr>ppEntries := (ppEntries t)[pos := nxt],
                                 size_ht := size_ht t - 1\<rparr>),
                         free_item pEntry h)
               else (case remove_walk hv [] (pEntry # nxt) False (size_ht t) h of
                       Inl f \<Rightarrow> Inl f
                     | Inr (chain, done, sz, h1) \<Rightarrow>
                         Inr (if done then HT_OK else HT_NOT_FOUND,
                              Some (t\<lparr>ppEntries := (ppEntries t)[pos := chain], size_ht := sz\<rparr>),
                              h1)))))
      | _ \<Rightarrow> Inr (HT_ARG_NULL, pHt, h))"

subsection \<open>ht\_set\_hash\_func\<close>

definition ht_set_hash_func ::
  "hash_table option \<Rightarrow> ht_hash_func_t option \<Rightarrow> int \<times> hash_table option" where
  "ht_set_hash_func pHt pFn =
     (case (pHt, pFn) of
        (Some t, Some fn) \<Rightarrow>
          if size_ht t > 0 then (HT_MISUSE, pHt)
          else (HT_OK, Some (t\<lparr>pfnHash := Some fn\<rparr>))
      | _ \<Rightarrow> (HT_ARG_NULL, pHt))"

subsection \<open>The string-key functions\<close>

text \<open>
  \<open>STRLEN_P1\<close>: \<open>strlen(pzStr) + 1\<close>, a \<open>size_t\<close> that the call converts to
  \<open>ht_size_t\<close>. \<open>strlen\<close> needs the terminator among the bytes the pointer addresses.
\<close>

definition STRLEN_P1 :: "byte list \<Rightarrow> fault + ht_size_t" where
  "STRLEN_P1 pzStr =
     (if 0 \<in> set pzStr then Inr (of_nat (length (takeWhile (\<lambda>b. b \<noteq> 0) pzStr) + 1))
      else Inl OutOfBounds)"

definition ht_strk_get_item ::
  "hash_table option \<Rightarrow> byte list option \<Rightarrow> addr option \<Rightarrow> ht_size_t option
     \<Rightarrow> fault + (int \<times> addr option \<times> ht_size_t option)" where
  "ht_strk_get_item pHt pzKey ppData pData_size =
     (case pzKey of None \<Rightarrow> Inr (HT_ARG_NULL, ppData, pData_size)
      | Some key \<Rightarrow>
     (case STRLEN_P1 key of Inl f \<Rightarrow> Inl f
      | Inr n \<Rightarrow> ht_get_item pHt pzKey n ppData pData_size))"

definition ht_strk_has_key :: "hash_table option \<Rightarrow> byte list option \<Rightarrow> fault + int" where
  "ht_strk_has_key pHt pzKey =
     (case pzKey of None \<Rightarrow> Inr HT_ARG_NULL
      | Some key \<Rightarrow>
     (case STRLEN_P1 key of Inl f \<Rightarrow> Inl f
      | Inr n \<Rightarrow> ht_has_key pHt pzKey n))"

definition ht_strk_insert ::
  "hash_table option \<Rightarrow> byte list option \<Rightarrow> addr \<Rightarrow> ht_size_t \<Rightarrow> ht_free_func_t \<Rightarrow> heap
     \<Rightarrow> fault + (int \<times> hash_table option \<times> heap)" where
  "ht_strk_insert pHt pzKey pData_arg dsz pfn h =
     (case pzKey of None \<Rightarrow> Inr (HT_ARG_NULL, pHt, h)
      | Some key \<Rightarrow>
     (case STRLEN_P1 key of Inl f \<Rightarrow> Inl f
      | Inr n \<Rightarrow> ht_insert pHt pzKey n pData_arg dsz pfn h))"

definition ht_strk_remove ::
  "hash_table option \<Rightarrow> byte list option \<Rightarrow> heap
     \<Rightarrow> fault + (int \<times> hash_table option \<times> heap)" where
  "ht_strk_remove pHt pzKey h =
     (case pzKey of None \<Rightarrow> Inr (HT_ARG_NULL, pHt, h)
      | Some key \<Rightarrow>
     (case STRLEN_P1 key of Inl f \<Rightarrow> Inl f
      | Inr n \<Rightarrow> ht_remove pHt pzKey n h))"

section \<open>Well-formed tables\<close>

text \<open>
  The data-model invariants of the table: the capacity is not zero and is the length of the
  bucket array; every entry stands in the bucket \<open>hash mod capacity\<close>; no two entries
  have the same hash. \<open>find_entry\<close> is the first entry with a given hash in the bucket
  of that hash.
\<close>

definition ht_geom :: "hash_table \<Rightarrow> bool" where
  "ht_geom t \<longleftrightarrow> capacity t \<noteq> 0 \<and> length (ppEntries t) = unat (capacity t)"

definition find_entry :: "hash_table \<Rightarrow> ht_hash_t \<Rightarrow> ht_entry option" where
  "find_entry t hv = find (\<lambda>e. hash e = hv) (ppEntries t ! (unat hv mod unat (capacity t)))"

definition ht_wf :: "hash_table \<Rightarrow> bool" where
  "ht_wf t \<longleftrightarrow> ht_geom t
     \<and> (\<forall>i < length (ppEntries t). \<forall>e \<in> set (ppEntries t ! i).
          unat (hash e) mod unat (capacity t) = i)
     \<and> distinct (map hash (concat (ppEntries t)))"

text \<open>
  Closed forms of what the code builds. \<open>rebucket n es\<close> is the bucket array that holds
  the entries \<open>es\<close> in \<open>n\<close> buckets, each bucket in the order of \<open>es\<close>;
  \<open>grown t a\<close> is the table after a successful \<open>grow_table\<close> whose new array is at
  \<open>a\<close>; \<open>appended t e\<close> is the table after \<open>place_item\<close> has put \<open>e\<close> at the
  end of its chain and \<open>size\<close> has been incremented. The lemmas below prove that the
  code computes them.
\<close>

definition rebucket :: "nat \<Rightarrow> ht_entry list \<Rightarrow> ht_entry list list" where
  "rebucket n es = map (\<lambda>j. filter (\<lambda>e. unat (hash e) mod n = j) es) [0..<n]"

definition grown :: "hash_table \<Rightarrow> addr \<Rightarrow> hash_table" where
  "grown t a = t\<lparr>capacity := capacity t * 2,
                 ppEntries := rebucket (unat (capacity t * 2)) (concat (ppEntries t)),
                 ppEntries_at := a\<rparr>"

definition appended :: "hash_table \<Rightarrow> ht_entry \<Rightarrow> hash_table" where
  "appended t e =
     t\<lparr>ppEntries := (ppEntries t)[unat (hash e) mod unat (capacity t) :=
                       ppEntries t ! (unat (hash e) mod unat (capacity t)) @ [e]],
       size_ht := size_ht t + 1\<rparr>"

text \<open>
  \<open>removed t hv\<close> is the table after \<open>ht_remove\<close> has unlinked the entry with hash
  \<open>hv\<close> and decremented \<open>size\<close>.
\<close>

definition removed :: "hash_table \<Rightarrow> ht_hash_t \<Rightarrow> hash_table" where
  "removed t hv =
     t\<lparr>ppEntries := (ppEntries t)[unat hv mod unat (capacity t) :=
                       filter (\<lambda>e. hash e \<noteq> hv) (ppEntries t ! (unat hv mod unat (capacity t)))],
       size_ht := size_ht t - 1\<rparr>"

text \<open>
  \<open>ht_rep es t\<close>: the bucket array of \<open>t\<close> holds exactly the entries \<open>es\<close>, every
  chain in the order of \<open>es\<close>, and no two of them have the same hash.
\<close>

definition ht_rep :: "ht_entry list \<Rightarrow> hash_table \<Rightarrow> bool" where
  "ht_rep es t \<longleftrightarrow> ht_geom t \<and> distinct (map hash es)
     \<and> ppEntries t = rebucket (unat (capacity t)) es"

section \<open>Example values\<close>

text \<open>
  The keys and the hash function \<open>dummy_hahser\<close> of tests.c (it compares the key as a C
  string and ignores the size), a heap that holds the caller's buffer \<open>"Data"\<close> at
  address 1, and the table that \<open>ht_init\<close> makes in it.
\<close>

definition key_Test :: "byte list" where "key_Test = [84, 101, 115, 116, 0]"
definition key_Test2 :: "byte list" where "key_Test2 = [84, 101, 115, 116, 50, 0]"
definition key_Test3 :: "byte list" where "key_Test3 = [84, 101, 115, 116, 51, 0]"

definition dummy_hahser :: ht_hash_func_t where
  "dummy_hahser key ksz =
     (if 0 \<notin> set key then Inl OutOfBounds
      else let s = takeWhile (\<lambda>b. b \<noteq> 0) key
      in Inr (if s = [84, 101, 115, 116] then 1
              else if s = [84, 101, 115, 116, 50] then 1 + ucast HT_DEFAULT_CAP
              else if s = [84, 101, 115, 116, 51] then 1 + ucast HT_DEFAULT_CAP * 2
              else 0))"

definition ex_heap0 :: heap where
  "ex_heap0 = \<lparr>blocks = [1 \<mapsto> Raw [68, 97, 116, 97, 0]], brk = 1, alloc_fails = [], junk = 0,
               released = []\<rparr>"

definition ex_heap :: heap where
  "ex_heap = \<lparr>blocks = [1 \<mapsto> Raw [68, 97, 116, 97, 0], 2 \<mapsto> TableStruct, 3 \<mapsto> BucketArray],
              brk = 3, alloc_fails = [], junk = 0, released = []\<rparr>"

definition ex_table :: hash_table where
  "ex_table = \<lparr>ppEntries = replicate 31 [], ppEntries_at = 3, size_ht = 0, capacity = 31,
               pfnHash = Some default_hash_impl\<rparr>"

definition ex_entry :: ht_entry where
  "ex_entry = \<lparr>entry_at = 4, pKey = 5, key_size = 5, pData = 1, data_size = 5,
               pfnFree = HT_STATIC, hash = 5995370896889781038\<rparr>"

definition ex_table1 :: hash_table where
  "ex_table1 = appended ex_table ex_entry"

definition ex_heap1 :: heap where
  "ex_heap1 = ex_heap\<lparr>blocks := (blocks ex_heap)(4 \<mapsto> EntryStruct, 5 \<mapsto> Raw key_Test),
                      brk := 5\<rparr>"

text \<open>
  The entry that \<open>ht_insert\<close> makes, and the heap it leaves, when it neither copies the
  value nor meets a failed allocation: the entry struct and the key copy are at the next two
  addresses.
\<close>

definition stored_entry ::
  "heap \<Rightarrow> ht_size_t \<Rightarrow> addr \<Rightarrow> ht_size_t \<Rightarrow> ht_free_func_t \<Rightarrow> ht_hash_t \<Rightarrow> ht_entry" where
  "stored_entry h ksz p d pol hv =
     \<lparr>entry_at = Suc (brk h), pKey = Suc (Suc (brk h)), key_size = ksz,
      pData = p, data_size = d, pfnFree = pol, hash = hv\<rparr>"

definition stored_heap :: "heap \<Rightarrow> byte list \<Rightarrow> ht_size_t \<Rightarrow> heap" where
  "stored_heap h key ksz =
     h\<lparr>blocks := (blocks h)(Suc (brk h) \<mapsto> EntryStruct,
                             Suc (Suc (brk h)) \<mapsto> Raw (take (unat ksz) key)),
       brk := Suc (Suc (brk h))\<rparr>"

text \<open>
  Sequences of calls. An operation is a call of \<open>ht_insert\<close>, \<open>ht_remove\<close> or
  \<open>ht_set_hash_func\<close> with its arguments (\<open>grow_table\<close> runs inside \<open>ht_insert\<close>);
  \<open>run\<close> makes the calls one after the other on the table and heap that the call before
  has left, and stops at the first fault.
\<close>

datatype ht_op =
    Insert "byte list option" ht_size_t addr ht_size_t ht_free_func_t
  | Remove "byte list option" ht_size_t
  | SetHashFunc "ht_hash_func_t option"

fun apply_op ::
  "ht_op \<Rightarrow> hash_table option \<Rightarrow> heap \<Rightarrow> fault + (int \<times> hash_table option \<times> heap)" where
  "apply_op (Insert pKey_arg ksz p d pol) pHt h = ht_insert pHt pKey_arg ksz p d pol h"
| "apply_op (Remove pKey_arg ksz) pHt h = ht_remove pHt pKey_arg ksz h"
| "apply_op (SetHashFunc pFn) pHt h =
     (case ht_set_hash_func pHt pFn of (rc, pHt') \<Rightarrow> Inr (rc, pHt', h))"

fun run ::
  "ht_op list \<Rightarrow> hash_table option \<times> heap \<Rightarrow> fault + (hash_table option \<times> heap)" where
  "run [] s = Inr s"
| "run (op # ops) (pHt, h) =
     (case apply_op op pHt h of Inl f \<Rightarrow> Inl f
      | Inr (rc, pHt', h') \<Rightarrow> run ops (pHt', h'))"

text \<open>
  The insertion log: the hashes of the keys that are in the table, in the order of their
  insertion. \<open>logged op pHt rc lg\<close> is the log after the call \<open>op\<close> on the table \<open>pHt\<close>
  has returned \<open>rc\<close>: an \<open>ht_insert\<close> that returns \<open>HT_OK\<close> puts the hash of its key at
  the end, an \<open>ht_remove\<close> that returns \<open>HT_OK\<close> takes the hash of its key out.
  \<open>insertion_log ops lg s\<close> is the log after the calls \<open>ops\<close> from the state \<open>s\<close>.
\<close>

fun logged :: "ht_op \<Rightarrow> hash_table option \<Rightarrow> int \<Rightarrow> ht_hash_t list \<Rightarrow> ht_hash_t list" where
  "logged (Insert (Some key) ksz p d pol) (Some t) rc lg =
     (if rc = HT_OK
      then (case call_hash (pfnHash t) key ksz of Inl f \<Rightarrow> lg | Inr hv \<Rightarrow> lg @ [hv])
      else lg)"
| "logged (Remove (Some key) ksz) (Some t) rc lg =
     (if rc = HT_OK
      then (case call_hash (pfnHash t) key ksz of Inl f \<Rightarrow> lg
            | Inr hv \<Rightarrow> filter (\<lambda>v. v \<noteq> hv) lg)
      else lg)"
| "logged op pHt rc lg = lg"

fun insertion_log ::
  "ht_op list \<Rightarrow> ht_hash_t list \<Rightarrow> hash_table option \<times> heap \<Rightarrow> ht_hash_t list" where
  "insertion_log [] lg s = lg"
| "insertion_log (op # ops) lg (pHt, h) =
     (case apply_op op pHt h of Inl f \<Rightarrow> lg
      | Inr (rc, pHt', h') \<Rightarrow> insertion_log ops (logged op pHt rc lg) (pHt', h'))"

text \<open>
  \<open>ht_holds es t\<close>: the table holds the entries \<open>es\<close>, chain by chain in the order of
  \<open>es\<close>, and its \<open>size\<close> is their number.
\<close>

definition ht_holds :: "ht_entry list \<Rightarrow> hash_table \<Rightarrow> bool" where
  "ht_holds es t \<longleftrightarrow> ht_rep es t \<and> unat (size_ht t) = length es"

text \<open>
  The calls of \<open>test_set_hash_func\<close> in tests.c: the table of \<open>ht_init\<close> with
  \<open>dummy_hahser\<close>, then the keys \<open>"Test"\<close>, \<open>"Test2"\<close> and \<open>"Test3"\<close> inserted, which
  \<open>dummy_hahser\<close> sends to bucket 1, then \<open>"Test2"\<close> removed.
\<close>

definition ex_dummy :: hash_table where
  "ex_dummy = ex_table\<lparr>pfnHash := Some dummy_hahser\<rparr>"

definition ex_e1 :: ht_entry where "ex_e1 = stored_entry ex_heap 5 1 5 HT_STATIC 1"
definition ex_d1 :: hash_table where "ex_d1 = appended ex_dummy ex_e1"
definition ex_h1 :: heap where "ex_h1 = stored_heap ex_heap key_Test 5"
definition ex_e2 :: ht_entry where "ex_e2 = stored_entry ex_h1 6 1 5 HT_STATIC 32"
definition ex_d2 :: hash_table where "ex_d2 = appended ex_d1 ex_e2"
definition ex_h2 :: heap where "ex_h2 = stored_heap ex_h1 key_Test2 6"
definition ex_e3 :: ht_entry where "ex_e3 = stored_entry ex_h2 6 1 5 HT_STATIC 63"
definition ex_d3 :: hash_table where "ex_d3 = appended ex_d2 ex_e3"
definition ex_h3 :: heap where "ex_h3 = stored_heap ex_h2 key_Test3 6"
definition ex_d4 :: hash_table where "ex_d4 = removed ex_d3 32"
definition ex_h4 :: heap where "ex_h4 = free_item ex_e2 ex_h3"

definition ex_ops :: "ht_op list" where
  "ex_ops = [Insert (Some key_Test2) 6 1 5 HT_STATIC, Insert (Some key_Test3) 6 1 5 HT_STATIC,
             Remove (Some key_Test2) 5]"



text \<open>
  \<open>grown_heap t h\<close> is the heap after \<open>grow_table\<close> has allocated the new bucket array
  and released the old one.
\<close>

definition grown_heap :: "hash_table \<Rightarrow> heap \<Rightarrow> heap" where
  "grown_heap t h =
     h\<lparr>alloc_fails := tl (alloc_fails h),
       blocks := (blocks h)(Suc (brk h) \<mapsto> BucketArray, ppEntries_at t := None),
       brk := Suc (brk h)\<rparr>"

text \<open>
  A table at the load limit: 21 entries in 31 buckets, as 21 calls of \<open>ht_insert\<close> with
  the one-byte keys 1 to 21 leave it (\<open>default_hash_impl\<close> gives a one-byte key its byte as
  hash), and the heap that goes with it, with the coming answers of the allocator as
  parameter. One more entry makes \<open>22 > 31 * 0.7\<close>.
\<close>

definition ex_es21 :: "ht_entry list" where
  "ex_es21 = map (\<lambda>i. \<lparr>entry_at = 2 * i + 4, pKey = 2 * i + 5, key_size = 1, pData = 1,
                        data_size = 5, pfnFree = HT_STATIC, hash = of_nat (i + 1)\<rparr>) [0..<21]"

definition ex_full :: hash_table where
  "ex_full = \<lparr>ppEntries = rebucket 31 ex_es21, ppEntries_at = 3, size_ht = 21, capacity = 31,
              pfnHash = Some default_hash_impl\<rparr>"

definition ex_heap_full :: "bool list \<Rightarrow> heap" where
  "ex_heap_full fs =
     \<lparr>blocks = (\<lambda>a. if a = 0 \<or> 45 < a then None
                     else if a = 1 then Some (Raw [68, 97, 116, 97, 0])
                     else if a = 2 then Some TableStruct
                     else if a = 3 then Some BucketArray
                     else if even a then Some EntryStruct
                     else Some (Raw [of_nat ((a - 3) div 2)])),
      brk = 45, alloc_fails = fs, junk = 0, released = []\<rparr>"




text \<open>
  The active hash function: \<open>set_by op rc cur\<close> is the function the table uses after
  the call \<open>op\<close> has returned \<open>rc\<close>, when it used \<open>cur\<close> before: only a call of
  \<open>ht_set_hash_func\<close> with a function, that returns \<open>HT_OK\<close>, changes it.
  \<open>hash_func_after ops cur s\<close> is the function in use after the calls \<open>ops\<close> from the
  state \<open>s\<close>.
\<close>

fun set_by :: "ht_op \<Rightarrow> int \<Rightarrow> ht_hash_func_t option \<Rightarrow> ht_hash_func_t option" where
  "set_by (SetHashFunc (Some g)) rc cur = (if rc = HT_OK then Some g else cur)"
| "set_by op rc cur = cur"

fun hash_func_after ::
  "ht_op list \<Rightarrow> ht_hash_func_t option \<Rightarrow> hash_table option \<times> heap \<Rightarrow> ht_hash_func_t option" where
  "hash_func_after [] cur s = cur"
| "hash_func_after (op # ops) cur (pHt, h) =
     (case apply_op op pHt h of Inl f \<Rightarrow> cur
      | Inr (rc, pHt', h') \<Rightarrow> hash_func_after ops (set_by op rc cur) (pHt', h'))"

text \<open>
  The table and heap of \<open>test_set_hash_func\<close> after \<open>"Test2"\<close> has been inserted again.
\<close>

definition ex_e5 :: ht_entry where "ex_e5 = stored_entry ex_h4 6 1 5 HT_STATIC 32"

definition ex_d5 :: hash_table where "ex_d5 = appended ex_d4 ex_e5"

definition ex_h5 :: heap where "ex_h5 = stored_heap ex_h4 key_Test2 6"

section \<open>Lemmas\<close>

lemmas ht_codes = HT_OK_def HT_NOT_FOUND_def HT_DUPLICATE_def HT_ALLOC_ERR_def
  HT_ARG_NULL_def HT_CORRUPTED_def HT_MISUSE_def

subsection \<open>Bucket index and lookup\<close>

lemma unat_ucast_cap: "unat (ucast (cap::ht_size_t) :: ht_hash_t) = unat cap"
proof -
  have "unat cap < 2 ^ 32" using unsigned_less [of cap, where 'a=nat] by simp
  then show ?thesis by (simp add: unsigned_ucast_eq take_bit_nat_eq_self)
qed

lemma hash_pos_of_eq: "cap \<noteq> 0 \<Longrightarrow> hash_pos_of hv cap = Inr (unat hv mod unat cap)"
proof -
  assume c: "cap \<noteq> 0"
  have "unat (hv mod ucast cap) = unat hv mod unat cap"
    by (simp add: unat_mod unat_ucast_cap)
  moreover have "unat hv mod unat cap < 2 ^ 32"
  proof -
    have "unat cap > 0" using c by (simp add: unat_gt_0)
    then have "unat hv mod unat cap < unat cap" by simp
    moreover have "unat cap < 2 ^ 32" using unsigned_less [of cap, where 'a=nat] by simp
    ultimately show ?thesis by linarith
  qed
  ultimately have "unat (ucast (hv mod ucast cap) :: ht_size_t) = unat hv mod unat cap"
    by (simp add: unsigned_ucast_eq take_bit_nat_eq_self)
  with c show ?thesis by (simp add: hash_pos_of_def)
qed

lemma bucket_in_range: "ht_geom t \<Longrightarrow> unat hv mod unat (capacity t) < length (ppEntries t)"
  by (simp add: ht_geom_def unat_gt_0)

lemma wf_geom: "ht_wf t \<Longrightarrow> ht_geom t"
  by (simp add: ht_wf_def)

lemma wf_in_range: "ht_wf t \<Longrightarrow> unat hv mod unat (capacity t) < length (ppEntries t)"
  by (rule bucket_in_range) (rule wf_geom)

lemma chain_subset_concat: "i < length xss \<Longrightarrow> x \<in> set (xss ! i) \<Longrightarrow> x \<in> set (concat xss)"
proof -
  assume "i < length xss" and x: "x \<in> set (xss ! i)"
  then have "xss ! i \<in> set xss" by simp
  with x show ?thesis by auto
qed

lemma concat_memE: "x \<in> set (concat xss) \<Longrightarrow> \<exists>i<length xss. x \<in> set (xss ! i)"
proof -
  assume "x \<in> set (concat xss)"
  then have "\<exists>ys\<in>set xss. x \<in> set ys" by simp
  then obtain ys where ys: "ys \<in> set xss" "x \<in> set ys" ..
  from ys(1) obtain i where "i < length xss" "xss ! i = ys" unfolding in_set_conv_nth by blast
  with ys(2) show ?thesis by auto
qed

lemma hash_exists_loop_found: "rc \<noteq> 0 \<Longrightarrow> hash_exists_loop hv chain rc found = (rc, found)"
  by (cases chain) auto

lemma hash_exists_loop_find:
  "hash_exists_loop hv chain 0 None =
     (case find (\<lambda>e. hash e = hv) chain of None \<Rightarrow> (0, None) | Some e \<Rightarrow> (1, Some e))"
  by (induction chain) (auto simp: hash_exists_loop_found)

lemma hash_exists_eq:
  "ht_geom t \<Longrightarrow> hash_exists t hv =
     Inr (case find_entry t hv of None \<Rightarrow> (0, None) | Some e \<Rightarrow> (1, Some e))"
  using bucket_in_range [of t hv]
  by (simp add: hash_exists_def hash_pos_of_eq bucket_at_def hash_exists_loop_find
      find_entry_def ht_geom_def)

lemma ht_get_item_eq:
  "ht_geom t \<Longrightarrow> call_hash (pfnHash t) key ksz = Inr hv \<Longrightarrow>
   ht_get_item (Some t) (Some key) ksz (Some a) (Some b) =
     Inr (case find_entry t hv of None \<Rightarrow> (HT_NOT_FOUND, Some NULL, Some HT_NO_SIZE)
          | Some e \<Rightarrow> (HT_OK, Some (pData e), Some (data_size e)))"
  by (simp add: ht_get_item_def hash_exists_eq split: option.splits)

lemma ht_has_key_eq:
  "ht_geom t \<Longrightarrow> call_hash (pfnHash t) key ksz = Inr hv \<Longrightarrow>
   ht_has_key (Some t) (Some key) ksz =
     Inr (case find_entry t hv of None \<Rightarrow> 0 | Some e \<Rightarrow> 1)"
  by (simp add: ht_has_key_def hash_exists_eq split: option.splits)

lemma find_entry_Some_iff:
  assumes "ht_wf t"
  shows "find_entry t hv = Some e \<longleftrightarrow> e \<in> set (concat (ppEntries t)) \<and> hash e = hv"
proof
  have r: "unat hv mod unat (capacity t) < length (ppEntries t)"
    by (rule wf_in_range [OF assms])
  assume f: "find_entry t hv = Some e"
  then have m: "e \<in> set (ppEntries t ! (unat hv mod unat (capacity t)))" and h: "hash e = hv"
    by (auto simp: find_entry_def find_Some_iff)
  show "e \<in> set (concat (ppEntries t)) \<and> hash e = hv"
    by (rule conjI) (rule chain_subset_concat [OF r m], rule h)
next
  have r: "unat hv mod unat (capacity t) < length (ppEntries t)"
    by (rule wf_in_range [OF assms])
  assume a: "e \<in> set (concat (ppEntries t)) \<and> hash e = hv"
  from concat_memE [OF conjunct1 [OF a]]
  obtain i where i: "i < length (ppEntries t)" "e \<in> set (ppEntries t ! i)" by blast
  with assms have "unat (hash e) mod unat (capacity t) = i" by (simp add: ht_wf_def)
  with a i have mem: "e \<in> set (ppEntries t ! (unat hv mod unat (capacity t)))" by simp
  then obtain e' where e': "find_entry t hv = Some e'"
    using a by (cases "find_entry t hv") (auto simp: find_entry_def find_None_iff)
  then have m': "e' \<in> set (ppEntries t ! (unat hv mod unat (capacity t)))" and h': "hash e' = hv"
    by (auto simp: find_entry_def find_Some_iff)
  have "e' \<in> set (concat (ppEntries t))"
    by (rule chain_subset_concat [OF r m'])
  moreover have "inj_on hash (set (concat (ppEntries t)))"
    using assms by (simp add: ht_wf_def distinct_map)
  moreover have "e \<in> set (concat (ppEntries t))" "hash e' = hash e" using a h' by simp_all
  ultimately have "e' = e" by (meson inj_onD)
  with e' show "find_entry t hv = Some e" by simp
qed

lemma find_entry_None_iff:
  assumes "ht_wf t"
  shows "find_entry t hv = None \<longleftrightarrow> hv \<notin> hash ` set (concat (ppEntries t))"
proof -
  have "find_entry t hv \<noteq> None \<longleftrightarrow> (\<exists>e. find_entry t hv = Some e)" by auto
  also have "\<dots> \<longleftrightarrow> hv \<in> hash ` set (concat (ppEntries t))"
    using find_entry_Some_iff [OF assms] by (auto simp: image_iff)
  finally show ?thesis by blast
qed

lemma link_tail_append: "link_tail x nxt e = x # nxt @ [e]"
  by (induction x nxt e rule: link_tail.induct) auto

lemma place_item_eq:
  assumes "cap \<noteq> 0" "cap \<noteq> HT_NO_SIZE" "length arr = unat cap"
  shows "place_item arr cap e =
           Inr (arr[unat (hash e) mod unat cap := arr ! (unat (hash e) mod unat cap) @ [e]])"
proof -
  have "unat (hash e) mod unat cap < length arr"
    using assms by (simp add: unat_gt_0)
  then show ?thesis
    using assms
    by (simp add: place_item_def hash_pos_of_eq bucket_at_def link_tail_append split: list.splits)
qed

lemma place_item_Inr:
  assumes "place_item arr cap e = Inr arr'" "length arr = unat cap"
  shows "cap \<noteq> 0 \<and> cap \<noteq> HT_NO_SIZE"
  using assms by (auto simp: place_item_def hash_pos_of_def split: if_splits)

subsection \<open>Relocation by grow\_table\<close>

lemma grow_chain_D:
  "grow_chain es arr cap = Inr arr' \<Longrightarrow> length arr = unat cap \<Longrightarrow>
   arr' = map (\<lambda>j. arr ! j @ filter (\<lambda>e. unat (hash e) mod unat cap = j) es) [0..<unat cap]"
proof (induction es arbitrary: arr)
  case Nil
  then show ?case using map_nth [of arr] by simp
next
  case (Cons e es)
  from Cons.prems obtain arr1 where p: "place_item arr cap e = Inr arr1"
    and g: "grow_chain es arr1 cap = Inr arr'"
    by (auto split: sum.splits)
  from place_item_Inr [OF p Cons.prems(2)] have c: "cap \<noteq> 0" "cap \<noteq> HT_NO_SIZE" by simp_all
  let ?p = "unat (hash e) mod unat cap"
  from p place_item_eq [OF c Cons.prems(2), of e]
  have arr1: "arr1 = arr[?p := arr ! ?p @ [e]]" by simp
  then have len1: "length arr1 = unat cap" using Cons.prems(2) by simp
  from Cons.IH [OF g len1]
  have "arr' = map (\<lambda>j. arr1 ! j @ filter (\<lambda>e. unat (hash e) mod unat cap = j) es) [0..<unat cap]" .
  also have "\<dots> = map (\<lambda>j. arr ! j @ filter (\<lambda>e. unat (hash e) mod unat cap = j) (e # es)) [0..<unat cap]"
  proof (rule map_cong [OF refl])
    fix j assume "j \<in> set [0..<unat cap]"
    then have "j < length arr" using Cons.prems(2) by simp
    then show "arr1 ! j @ filter (\<lambda>e. unat (hash e) mod unat cap = j) es =
               arr ! j @ filter (\<lambda>e. unat (hash e) mod unat cap = j) (e # es)"
      by (simp add: arr1 nth_list_update)
  qed
  finally show ?case .
qed

lemma grow_buckets_D:
  "grow_buckets t i arr cap = Inr arr' \<Longrightarrow> length arr = unat cap \<Longrightarrow>
   length (ppEntries t) = unat (capacity t) \<Longrightarrow>
   arr' = map (\<lambda>j. arr ! j @ filter (\<lambda>e. unat (hash e) mod unat cap = j)
                              (concat (drop i (ppEntries t)))) [0..<unat cap]"
proof (induction t i arr cap rule: grow_buckets.induct)
  case (1 t i new_array new_cap)
  show ?case
  proof (cases "i < unat (capacity t)")
    case False
    with "1.prems" have "arr' = new_array" by (simp add: grow_buckets.simps)
    moreover have "drop i (ppEntries t) = []" using False "1.prems" by simp
    ultimately show ?thesis using "1.prems"(2) map_nth [of new_array] by simp
  next
    case True
    then have b: "bucket_at (ppEntries t) i = Inr (ppEntries t ! i)"
      using "1.prems" by (simp add: bucket_at_def)
    from "1.prems"(1) True b obtain arr1 where
      g1: "grow_chain (ppEntries t ! i) new_array new_cap = Inr arr1" and
      g2: "grow_buckets t (Suc i) arr1 new_cap = Inr arr'"
      by (subst (asm) grow_buckets.simps) (auto split: sum.splits)
    from grow_chain_D [OF g1 "1.prems"(2)]
    have arr1: "arr1 = map (\<lambda>j. new_array ! j @
        filter (\<lambda>e. unat (hash e) mod unat new_cap = j) (ppEntries t ! i)) [0..<unat new_cap]" .
    then have len1: "length arr1 = unat new_cap" by simp
    have d: "drop i (ppEntries t) = ppEntries t ! i # drop (Suc i) (ppEntries t)"
      using True "1.prems"(3) by (simp add: Cons_nth_drop_Suc)
    from "1.IH" [OF True b g1 g2 len1 "1.prems"(3)]
    have "arr' = map (\<lambda>j. arr1 ! j @ filter (\<lambda>e. unat (hash e) mod unat new_cap = j)
                              (concat (drop (Suc i) (ppEntries t)))) [0..<unat new_cap]" .
    also have "\<dots> = map (\<lambda>j. new_array ! j @ filter (\<lambda>e. unat (hash e) mod unat new_cap = j)
                              (concat (drop i (ppEntries t)))) [0..<unat new_cap]"
      by (rule map_cong [OF refl]) (simp add: arr1 d)
    finally show ?thesis .
  qed
qed

lemma grow_table_D:
  assumes "grow_table t h = Inr (rc, t', h')" "length (ppEntries t) = unat (capacity t)"
  shows "(rc = HT_ALLOC_ERR \<and> t' = t \<and> blocks h' = blocks h) \<or>
         (rc = HT_OK \<and> t' = t\<lparr>capacity := capacity t * 2,
                ppEntries := rebucket (unat (capacity t * 2)) (concat (ppEntries t)),
                ppEntries_at := Suc (brk h)\<rparr>)"
proof -
  obtain a h1 where m: "malloc BucketArray h = (a, h1)" by (cases "malloc BucketArray h")
  show ?thesis
  proof (cases "a = NULL")
    case True
    with assms m show ?thesis
      by (auto simp: grow_table_def malloc_def Let_def split: if_splits)
  next
    case False
    with m have a: "a = Suc (brk h)" by (auto simp: malloc_def Let_def split: if_splits)
    from assms(1) m False obtain arr where
      g: "grow_buckets t 0 (replicate (unat (capacity t * 2)) []) (capacity t * 2) = Inr arr"
      and r: "rc = HT_OK" "t' = t\<lparr>capacity := capacity t * 2, ppEntries := arr, ppEntries_at := a\<rparr>"
      by (auto simp: grow_table_def Let_def HT_GROW_FACT_def split: sum.splits)
    from grow_buckets_D [OF g _ assms(2)]
    have "arr = rebucket (unat (capacity t * 2)) (concat (ppEntries t))"
      by (simp add: rebucket_def cong: map_cong)
    with r a show ?thesis by simp
  qed
qed

subsection \<open>Insertion\<close>

lemma malloc_cases:
  "malloc b h = (a, h1) \<Longrightarrow>
     (a = NULL \<and> blocks h1 = blocks h \<and> brk h1 = brk h \<and> junk h1 = junk h \<and> released h1 = released h) \<or>
     (a = Suc (brk h) \<and> blocks h1 = (blocks h)(Suc (brk h) \<mapsto> b) \<and> brk h1 = Suc (brk h)
        \<and> junk h1 = junk h \<and> released h1 = released h)"
  by (auto simp: malloc_def Let_def split: if_splits)

lemma insert_entry_OK_D:
  assumes "insert_entry t key ksz p d pol hv h = Inr (HT_OK, pHt', h')"
      and "length (ppEntries t) = unat (capacity t)"
  shows "\<exists>e. hash e = hv \<and> data_size e = d \<and> key_size e = ksz \<and> pfnFree e = pol
            \<and> (pol \<noteq> HT_TRANSIENT \<longrightarrow> pData e = p)
            \<and> (pol = HT_TRANSIENT \<longrightarrow> pData e \<noteq> NULL \<and>
                 (\<exists>src. unat d \<le> length src \<and> blocks h' (pData e) = Some (Raw (take (unat d) src))
                    \<and> (p \<le> brk h \<longrightarrow> bytes_at h p = Inr src)))
            \<and> capacity t \<noteq> 0 \<and> capacity t \<noteq> HT_NO_SIZE
            \<and> pHt' = Some (t\<lparr>ppEntries := (ppEntries t)[unat hv mod unat (capacity t) :=
                               ppEntries t ! (unat hv mod unat (capacity t)) @ [e]],
                             size_ht := size_ht t + 1\<rparr>)"
proof -
  obtain ne h1 where m1: "malloc EntryStruct h = (ne, h1)" by (cases "malloc EntryStruct h")
  obtain ka h2 where m2: "malloc (Raw []) h1 = (ka, h2)" by (cases "malloc (Raw []) h1")
  from assms(1) m1 have ne: "ne \<noteq> NULL"
    by (auto simp: insert_entry_def Let_def ht_codes split: if_splits)
  from assms(1) m1 m2 ne have ka: "ka \<noteq> NULL"
    by (auto simp: insert_entry_def Let_def ht_codes split: if_splits)
  from assms(1) m1 m2 ne ka obtain h3 where c3: "memcpy ka key ksz h2 = Inr h3"
    by (auto simp: insert_entry_def Let_def split: sum.splits)
  from malloc_cases [OF m1] ne have b1: "brk h1 = Suc (brk h)" "blocks h1 = (blocks h)(Suc (brk h) \<mapsto> EntryStruct)"
    by auto
  from malloc_cases [OF m2] ka b1 have b2: "brk h2 = Suc (Suc (brk h))" "ka = Suc (Suc (brk h))"
     "blocks h2 = (blocks h1)(Suc (Suc (brk h)) \<mapsto> Raw [])"
    by auto
  from c3 have b3: "brk h3 = brk h2" "blocks h3 = (blocks h2)(ka \<mapsto> Raw (take (unat ksz) key))"
    by (auto simp: memcpy_def split: if_splits)
  let ?val = "if pol = HT_TRANSIENT
            then (let (data_at, h4) = malloc (Raw []) h3
                  in case bytes_at h4 p of Inl f \<Rightarrow> Inl f
                     | Inr src \<Rightarrow>
                    (case memcpy data_at src d h4 of Inl f \<Rightarrow> Inl f
                     | Inr h5 \<Rightarrow> Inr (data_at, h5)))
            else Inr (p, h3)"
  from assms(1) m1 m2 ne ka c3 obtain da h6 where v: "?val = Inr (da, h6)"
    by (auto simp: insert_entry_def Let_def split: sum.splits)
  let ?e = "\<lparr>entry_at = ne, pKey = ka, key_size = ksz, pData = da,
              data_size = d, pfnFree = pol, hash = hv\<rparr>"
  from assms(1) m1 m2 ne ka c3 v obtain arr where
    pl: "place_item (ppEntries t) (capacity t) ?e = Inr arr" and
    r: "pHt' = Some (t\<lparr>ppEntries := arr, size_ht := size_ht t + 1\<rparr>)" "h' = h6"
    by (auto simp: insert_entry_def Let_def split: sum.splits)
  from place_item_Inr [OF pl assms(2)] have c: "capacity t \<noteq> 0" "capacity t \<noteq> HT_NO_SIZE"
    by simp_all
  from pl place_item_eq [OF c assms(2), of ?e]
  have arr: "arr = (ppEntries t)[unat hv mod unat (capacity t) :=
                               ppEntries t ! (unat hv mod unat (capacity t)) @ [?e]]" by simp
  have tr: "pol = HT_TRANSIENT \<longrightarrow> da \<noteq> NULL \<and>
                 (\<exists>src. unat d \<le> length src \<and> blocks h6 da = Some (Raw (take (unat d) src))
                    \<and> (p \<le> brk h \<longrightarrow> bytes_at h p = Inr src))"
  proof
    assume T: "pol = HT_TRANSIENT"
    obtain a4 h4 where m4: "malloc (Raw []) h3 = (a4, h4)" by (cases "malloc (Raw []) h3")
    from v T m4 obtain src where s: "bytes_at h4 p = Inr src" and c5: "memcpy a4 src d h4 = Inr h6"
      and da: "da = a4"
      by (auto split: sum.splits)
    from c5 have a4: "a4 \<noteq> NULL" "unat d \<le> length src" "blocks h6 a4 = Some (Raw (take (unat d) src))"
      by (auto simp: memcpy_def split: if_splits)
    from malloc_cases [OF m4] a4 b3 b2 have b4: "blocks h4 = (blocks h3)(Suc (Suc (Suc (brk h))) \<mapsto> Raw [])"
      by auto
    have "p \<le> brk h \<longrightarrow> bytes_at h p = Inr src"
      using s b4 b3 b2 b1 by (auto simp: bytes_at_def)
    with a4 da show "da \<noteq> NULL \<and>
                 (\<exists>src. unat d \<le> length src \<and> blocks h6 da = Some (Raw (take (unat d) src))
                    \<and> (p \<le> brk h \<longrightarrow> bytes_at h p = Inr src))" by blast
  qed
  have nt: "pol \<noteq> HT_TRANSIENT \<longrightarrow> da = p" using v by auto
  show ?thesis
    apply (rule exI [of _ ?e])
    using tr nt c r arr by simp
qed

lemma concat_split:
  "i < length xss \<Longrightarrow> concat xss = concat (take i xss) @ xss ! i @ concat (drop (Suc i) xss)"
proof -
  assume "i < length xss"
  then have "xss = take i xss @ xss ! i # drop (Suc i) xss" by (rule id_take_nth_drop)
  then have "concat xss = concat (take i xss @ xss ! i # drop (Suc i) xss)" by simp
  then show ?thesis by simp
qed

lemma concat_update:
  "i < length xss \<Longrightarrow> concat (xss[i := ys]) = concat (take i xss) @ ys @ concat (drop (Suc i) xss)"
  by (simp add: upd_conv_take_nth_drop)

lemma set_concat_update_append:
  "i < length xss \<Longrightarrow> set (concat (xss[i := xss ! i @ [e]])) = insert e (set (concat xss))"
proof -
  assume i: "i < length xss"
  have "set (concat (xss[i := xss ! i @ [e]])) =
        set (concat (take i xss) @ (xss ! i @ [e]) @ concat (drop (Suc i) xss))"
    by (simp only: concat_update [OF i])
  also have "\<dots> = insert e (set (concat (take i xss) @ xss ! i @ concat (drop (Suc i) xss)))"
    by (simp only: set_append) auto
  also have "\<dots> = insert e (set (concat xss))" by (simp only: concat_split [OF i, symmetric])
  finally show ?thesis .
qed

lemma distinct_concat_update_append:
  assumes i: "i < length xss" and d: "distinct (map f (concat xss))"
      and n: "f e \<notin> f ` set (concat xss)"
  shows "distinct (map f (concat (xss[i := xss ! i @ [e]])))"
proof -
  let ?A = "concat (take i xss)" and ?B = "concat (drop (Suc i) xss)"
  from d have "distinct (map f (?A @ xss ! i @ ?B))" by (simp only: concat_split [OF i, symmetric])
  moreover from n have "f e \<notin> f ` set (?A @ xss ! i @ ?B)"
    using concat_split [OF i] by metis
  ultimately have "distinct (map f (?A @ (xss ! i @ [e]) @ ?B))" by auto
  then show ?thesis by (simp only: concat_update [OF i])
qed

lemma entries_appended:
  "ht_geom t \<Longrightarrow> set (concat (ppEntries (appended t e))) = insert e (set (concat (ppEntries t)))"
  using bucket_in_range [of t "hash e"]
  by (simp del: set_concat add: appended_def set_concat_update_append)

lemma wf_appended:
  assumes w: "ht_wf t" and n: "hash e \<notin> hash ` set (concat (ppEntries t))"
  shows "ht_wf (appended t e)"
proof -
  let ?i = "unat (hash e) mod unat (capacity t)"
  have i: "?i < length (ppEntries t)" by (rule wf_in_range [OF w])
  have g: "ht_geom (appended t e)" using w by (simp add: appended_def ht_wf_def ht_geom_def)
  have b: "\<forall>j < length (ppEntries (appended t e)). \<forall>x \<in> set (ppEntries (appended t e) ! j).
             unat (hash x) mod unat (capacity (appended t e)) = j"
    using w i by (auto simp: appended_def ht_wf_def nth_list_update)
  have d: "distinct (map hash (concat (ppEntries (appended t e))))"
    using distinct_concat_update_append [OF i _ n] w by (simp add: appended_def ht_wf_def)
  from g b d show ?thesis by (simp add: ht_wf_def)
qed

lemma length_rebucket: "length (rebucket n es) = n"
  by (simp add: rebucket_def)

lemma nth_rebucket: "j < n \<Longrightarrow> rebucket n es ! j = filter (\<lambda>e. unat (hash e) mod n = j) es"
  by (simp add: rebucket_def)

lemma set_concat_rebucket: "0 < n \<Longrightarrow> set (concat (rebucket n es)) = set es"
  by (auto simp: rebucket_def)

lemma set_concat_buckets_upto:
  "set (concat (map (\<lambda>j. filter (\<lambda>e. g e = j) es) [0..<n])) = {e \<in> set es. g e < n}"
  by auto

lemma distinct_concat_buckets:
  "distinct (map f es) \<Longrightarrow>
   distinct (map f (concat (map (\<lambda>j. filter (\<lambda>e. g e = j) es) [0..<n])))"
proof (induction n)
  case 0
  then show ?case by simp
next
  case (Suc n)
  let ?A = "concat (map (\<lambda>j. filter (\<lambda>e. g e = j) es) [0..<n])"
  let ?B = "filter (\<lambda>e. g e = n) es"
  have inj: "inj_on f (set es)" using Suc.prems by (simp add: distinct_map)
  have A: "set ?A = {e \<in> set es. g e < n}" by (rule set_concat_buckets_upto)
  have "f ` set ?A \<inter> f ` set ?B = {}"
  proof -
    have "False" if ab: "a \<in> set ?A" "b \<in> set ?B" "f a = f b" for a b
    proof -
      from ab(1) have a: "a \<in> set es" "g a < n" unfolding A by simp_all
      from ab(2) have b: "b \<in> set es" "g b = n" by simp_all
      from inj a(1) b(1) ab(3) have "a = b" by (meson inj_onD)
      with a b show False by simp
    qed
    then show ?thesis by blast
  qed
  moreover have "distinct (map f ?A)" by (rule Suc.IH [OF Suc.prems])
  moreover have "distinct (map f ?B)" using Suc.prems by (rule distinct_map_filter)
  ultimately show ?case by simp
qed

lemma wf_grown:
  assumes w: "ht_wf t" and c: "capacity t * 2 \<noteq> 0"
  shows "ht_wf (grown t a)"
proof -
  have g: "ht_geom (grown t a)" using c by (simp add: grown_def ht_geom_def length_rebucket)
  have b: "\<forall>j < length (ppEntries (grown t a)). \<forall>x \<in> set (ppEntries (grown t a) ! j).
             unat (hash x) mod unat (capacity (grown t a)) = j"
    by (simp add: grown_def length_rebucket nth_rebucket)
  have d: "distinct (map hash (concat (ppEntries (grown t a))))"
    using w distinct_concat_buckets [of hash "concat (ppEntries t)"]
    by (simp add: grown_def rebucket_def ht_wf_def)
  from g b d show ?thesis by (simp add: ht_wf_def)
qed

lemma entries_grown:
  "capacity t * 2 \<noteq> 0 \<Longrightarrow> set (concat (ppEntries (grown t a))) = set (concat (ppEntries t))"
  by (simp del: set_concat add: grown_def set_concat_rebucket unat_gt_0)

lemma insert_entry_rc:
  assumes "insert_entry t key ksz p d pol hv h = Inr (rc, pHt', h')"
  shows "rc = HT_OK \<or> (rc = HT_ALLOC_ERR \<and> pHt' = Some t)"
proof -
  obtain ne h1 where m1: "malloc EntryStruct h = (ne, h1)" by (cases "malloc EntryStruct h")
  obtain ka h2 where m2: "malloc (Raw []) h1 = (ka, h2)" by (cases "malloc (Raw []) h1")
  show ?thesis
    using assms m1 m2
    by (auto simp: insert_entry_def Let_def split: if_splits sum.splits prod.splits)
qed

lemma appended_hash_fields:
  "capacity (appended t e) = capacity t" "pfnHash (appended t e) = pfnHash t"
  "size_ht (appended t e) = size_ht t + 1" "ppEntries_at (appended t e) = ppEntries_at t"
  by (simp_all add: appended_def)

lemma grown_fields:
  "capacity (grown t a) = capacity t * 2" "pfnHash (grown t a) = pfnHash t"
  "size_ht (grown t a) = size_ht t" "length (ppEntries (grown t a)) = unat (capacity t * 2)"
  by (simp_all add: grown_def length_rebucket)

text \<open>What a call of \<open>ht_insert\<close> that returns has done, by status.\<close>

lemma ht_insert_D:
  assumes ins: "ht_insert (Some t) (Some key) ksz p d pol h = Inr (rc, pHt', h')"
      and g: "ht_geom t"
  shows "(rc = HT_ARG_NULL \<and> pHt' = Some t \<and> h' = h)
       \<or> (rc = HT_DUPLICATE \<and> pHt' = Some t \<and> h' = h \<and>
            (\<exists>hv. call_hash (pfnHash t) key ksz = Inr hv \<and> find_entry t hv \<noteq> None))
       \<or> (rc = HT_ALLOC_ERR \<and>
            (pHt' = Some t \<or> (needs_growth t \<and> pHt' = Some (grown t (Suc (brk h))))))
       \<or> (rc = HT_OK \<and> p \<noteq> NULL \<and>
            (\<exists>hv e t1. call_hash (pfnHash t) key ksz = Inr hv \<and> find_entry t hv = None
               \<and> (if needs_growth t then t1 = grown t (Suc (brk h)) else t1 = t)
               \<and> capacity t1 \<noteq> 0 \<and> capacity t1 \<noteq> HT_NO_SIZE
               \<and> pHt' = Some (appended t1 e)
               \<and> hash e = hv \<and> data_size e = d \<and> key_size e = ksz \<and> pfnFree e = pol
               \<and> (pol \<noteq> HT_TRANSIENT \<longrightarrow> pData e = p)
               \<and> (pol = HT_TRANSIENT \<longrightarrow> pData e \<noteq> NULL \<and>
                    (\<exists>src. unat d \<le> length src
                       \<and> blocks h' (pData e) = Some (Raw (take (unat d) src))
                       \<and> (\<not> needs_growth t \<longrightarrow> p \<le> brk h \<longrightarrow> bytes_at h p = Inr src)))))"
proof (cases "p = NULL \<or> pfnHash t = None")
  case True
  with ins have "rc = HT_ARG_NULL \<and> pHt' = Some t \<and> h' = h"
    by (auto simp: ht_insert_def split: if_splits option.splits)
  then show ?thesis by simp
next
  case False
  then obtain fn where fn: "pfnHash t = Some fn" and p: "p \<noteq> NULL" by auto
  from ins fn p obtain hv where hv: "fn key ksz = Inr hv"
    by (auto simp: ht_insert_def split: sum.splits)
  then have ch: "call_hash (pfnHash t) key ksz = Inr hv" by (simp add: call_hash_def fn)
  note he = hash_exists_eq [OF g, of hv]
  show ?thesis
  proof (cases "find_entry t hv")
    case (Some e0)
    with ins fn p hv he have "rc = HT_DUPLICATE \<and> pHt' = Some t \<and> h' = h"
      by (simp add: ht_insert_def)
    with ch Some show ?thesis by simp
  next
    case None
    have len: "length (ppEntries t) = unat (capacity t)" using g by (simp add: ht_geom_def)
    show ?thesis
    proof (cases "needs_growth t")
      case False
      with ins fn p hv he None
      have ie: "insert_entry t key ksz p d pol hv h = Inr (rc, pHt', h')"
        by (simp add: ht_insert_def)
      from insert_entry_rc [OF ie] show ?thesis
      proof
        assume ok: "rc = HT_OK"
        from insert_entry_OK_D [OF ie [unfolded ok] len] obtain e where
          e: "hash e = hv" "data_size e = d" "key_size e = ksz" "pfnFree e = pol"
             "pol \<noteq> HT_TRANSIENT \<longrightarrow> pData e = p"
             "pol = HT_TRANSIENT \<longrightarrow> pData e \<noteq> NULL \<and>
                 (\<exists>src. unat d \<le> length src \<and> blocks h' (pData e) = Some (Raw (take (unat d) src))
                    \<and> (p \<le> brk h \<longrightarrow> bytes_at h p = Inr src))"
             "capacity t \<noteq> 0" "capacity t \<noteq> HT_NO_SIZE"
             "pHt' = Some (t\<lparr>ppEntries := (ppEntries t)[unat hv mod unat (capacity t) :=
                               ppEntries t ! (unat hv mod unat (capacity t)) @ [e]],
                             size_ht := size_ht t + 1\<rparr>)"
          by blast
        from e(9) e(1) have "pHt' = Some (appended t e)" by (simp add: appended_def)
        with ok p ch None False e have "rc = HT_OK \<and> p \<noteq> NULL \<and>
            (\<exists>hv e t1. call_hash (pfnHash t) key ksz = Inr hv \<and> find_entry t hv = None
               \<and> (if needs_growth t then t1 = grown t (Suc (brk h)) else t1 = t)
               \<and> capacity t1 \<noteq> 0 \<and> capacity t1 \<noteq> HT_NO_SIZE
               \<and> pHt' = Some (appended t1 e)
               \<and> hash e = hv \<and> data_size e = d \<and> key_size e = ksz \<and> pfnFree e = pol
               \<and> (pol \<noteq> HT_TRANSIENT \<longrightarrow> pData e = p)
               \<and> (pol = HT_TRANSIENT \<longrightarrow> pData e \<noteq> NULL \<and>
                    (\<exists>src. unat d \<le> length src
                       \<and> blocks h' (pData e) = Some (Raw (take (unat d) src))
                       \<and> (\<not> needs_growth t \<longrightarrow> p \<le> brk h \<longrightarrow> bytes_at h p = Inr src))))"
          by (intro conjI exI [of _ hv] exI [of _ e] exI [of _ t]) auto
        then show ?thesis by blast
      next
        assume "rc = HT_ALLOC_ERR \<and> pHt' = Some t"
        then show ?thesis by simp
      qed
    next
      case True
      from ins fn p hv he None True obtain rc1 t1 h1 where
        gt: "grow_table t h = Inr (rc1, t1, h1)"
        by (auto simp: ht_insert_def split: sum.splits)
      from grow_table_D [OF gt len] show ?thesis
      proof
        assume a: "rc1 = HT_ALLOC_ERR \<and> t1 = t \<and> blocks h1 = blocks h"
        with ins fn p hv he None True gt have "rc = HT_ALLOC_ERR \<and> pHt' = Some t"
          by (auto simp: ht_insert_def ht_codes)
        then show ?thesis by simp
      next
        assume a: "rc1 = HT_OK \<and> t1 = t\<lparr>capacity := capacity t * 2,
                ppEntries := rebucket (unat (capacity t * 2)) (concat (ppEntries t)),
                ppEntries_at := Suc (brk h)\<rparr>"
        then have t1: "t1 = grown t (Suc (brk h))" by (simp add: grown_def)
        from a ins fn p hv he None True gt
        have ie: "insert_entry t1 key ksz p d pol hv h1 = Inr (rc, pHt', h')"
          by (simp add: ht_insert_def)
        have len1: "length (ppEntries t1) = unat (capacity t1)" by (simp add: t1 grown_fields)
        from insert_entry_rc [OF ie] show ?thesis
        proof
          assume ok: "rc = HT_OK"
          from insert_entry_OK_D [OF ie [unfolded ok] len1] obtain e where
            e: "hash e = hv" "data_size e = d" "key_size e = ksz" "pfnFree e = pol"
             "pol \<noteq> HT_TRANSIENT \<longrightarrow> pData e = p"
             "pol = HT_TRANSIENT \<longrightarrow> pData e \<noteq> NULL \<and>
                 (\<exists>src. unat d \<le> length src \<and> blocks h' (pData e) = Some (Raw (take (unat d) src))
                    \<and> (p \<le> brk h1 \<longrightarrow> bytes_at h1 p = Inr src))"
             "capacity t1 \<noteq> 0" "capacity t1 \<noteq> HT_NO_SIZE"
             "pHt' = Some (t1\<lparr>ppEntries := (ppEntries t1)[unat hv mod unat (capacity t1) :=
                               ppEntries t1 ! (unat hv mod unat (capacity t1)) @ [e]],
                             size_ht := size_ht t1 + 1\<rparr>)"
            by blast
          from e(9) e(1) have "pHt' = Some (appended t1 e)" by (simp add: appended_def)
          with ok p ch None True e t1 have "rc = HT_OK \<and> p \<noteq> NULL \<and>
            (\<exists>hv e t1. call_hash (pfnHash t) key ksz = Inr hv \<and> find_entry t hv = None
               \<and> (if needs_growth t then t1 = grown t (Suc (brk h)) else t1 = t)
               \<and> capacity t1 \<noteq> 0 \<and> capacity t1 \<noteq> HT_NO_SIZE
               \<and> pHt' = Some (appended t1 e)
               \<and> hash e = hv \<and> data_size e = d \<and> key_size e = ksz \<and> pfnFree e = pol
               \<and> (pol \<noteq> HT_TRANSIENT \<longrightarrow> pData e = p)
               \<and> (pol = HT_TRANSIENT \<longrightarrow> pData e \<noteq> NULL \<and>
                    (\<exists>src. unat d \<le> length src
                       \<and> blocks h' (pData e) = Some (Raw (take (unat d) src))
                       \<and> (\<not> needs_growth t \<longrightarrow> p \<le> brk h \<longrightarrow> bytes_at h p = Inr src))))"
            by (intro conjI exI [of _ hv] exI [of _ e] exI [of _ t1]) auto
          then show ?thesis by blast
        next
          assume "rc = HT_ALLOC_ERR \<and> pHt' = Some t1"
          with True t1 show ?thesis by simp
        qed
      qed
    qed
  qed
qed

subsection \<open>Removal\<close>

lemma remove_walk_done:
  "remove_walk hv pre (c # cs) True sz h = Inr (pre @ c # cs, True, sz, h)"
  by (cases cs) simp_all

lemma remove_walk_eq:
  "remove_walk hv pre (x # rest) False sz h =
     (case dropWhile (\<lambda>e. hash e \<noteq> hv) rest of
        [] \<Rightarrow> Inr (pre @ x # rest, False, sz, h)
      | [y] \<Rightarrow> Inl NullDeref
      | y # z # zs \<Rightarrow>
          Inr (pre @ x # takeWhile (\<lambda>e. hash e \<noteq> hv) rest @ z # zs, True, sz - 1,
               free_item y h))"
proof (induction rest arbitrary: pre x)
  case Nil
  show ?case by simp
next
  case (Cons r rs)
  show ?case
  proof (cases "hash r = hv")
    case True
    then show ?thesis by (cases rs) (simp_all add: remove_walk_done)
  next
    case False
    note IH = Cons.IH [of "pre @ [x]" r]
    show ?thesis
    proof (cases "dropWhile (\<lambda>e. hash e \<noteq> hv) rs")
      case Nil
      with False IH show ?thesis by (simp del: dropWhile_eq_Nil_conv)
    next
      case (Cons y ys)
      with False IH show ?thesis by (cases ys) (simp_all del: dropWhile_eq_Nil_conv)
    qed
  qed
qed

lemma ht_remove_eq:
  assumes g: "ht_geom t" and ch: "call_hash (pfnHash t) key ksz = Inr hv"
  shows "ht_remove (Some t) (Some key) ksz h =
     (case ppEntries t ! (unat hv mod unat (capacity t)) of
        [] \<Rightarrow> Inl NullDeref
      | x # rest \<Rightarrow>
          if hash x = hv
          then Inr (HT_OK,
                    Some (t\<lparr>ppEntries := (ppEntries t)[unat hv mod unat (capacity t) := rest],
                            size_ht := size_ht t - 1\<rparr>),
                    free_item x h)
          else (case dropWhile (\<lambda>e. hash e \<noteq> hv) rest of
                  [] \<Rightarrow> Inr (HT_NOT_FOUND, Some t, h)
                | [y] \<Rightarrow> Inl NullDeref
                | y # z # zs \<Rightarrow>
                    Inr (HT_OK,
                         Some (t\<lparr>ppEntries := (ppEntries t)[unat hv mod unat (capacity t) :=
                                    x # takeWhile (\<lambda>e. hash e \<noteq> hv) rest @ z # zs],
                                 size_ht := size_ht t - 1\<rparr>),
                         free_item y h)))"
proof -
  let ?i = "unat hv mod unat (capacity t)"
  have i: "?i < length (ppEntries t)" by (rule bucket_in_range [OF g])
  have c: "capacity t \<noteq> 0" using g by (simp add: ht_geom_def)
  show ?thesis
  proof (cases "ppEntries t ! ?i")
    case Nil
    then show ?thesis using i c ch
      by (simp add: ht_remove_def hash_pos_of_eq bucket_at_def)
  next
    case (Cons x rest)
    have same: "t\<lparr>ppEntries := (ppEntries t)[?i := x # rest], size_ht := size_ht t\<rparr> = t"
      using Cons [symmetric] by simp
    show ?thesis
    proof (cases "dropWhile (\<lambda>e. hash e \<noteq> hv) rest")
      case Nil
      with i c ch Cons same show ?thesis
        by (simp add: ht_remove_def hash_pos_of_eq bucket_at_def remove_walk_eq
            del: dropWhile_eq_Nil_conv)
    next
      case (Cons y ys)
      with i c ch \<open>ppEntries t ! ?i = x # rest\<close> show ?thesis
        by (cases ys)
           (simp_all add: ht_remove_def hash_pos_of_eq bucket_at_def remove_walk_eq
             del: dropWhile_eq_Nil_conv)
    qed
  qed
qed

lemma remove_first_filter:
  assumes d: "distinct (map f xs)" and dw: "dropWhile (\<lambda>e. f e \<noteq> v) xs = y # R"
  shows "takeWhile (\<lambda>e. f e \<noteq> v) xs @ R = filter (\<lambda>e. f e \<noteq> v) xs \<and> f y = v \<and> y \<in> set xs"
proof -
  let ?P = "\<lambda>e. f e \<noteq> v"
  have xs: "xs = takeWhile ?P xs @ y # R" using takeWhile_dropWhile_id [of ?P xs] dw by simp
  have y: "f y = v" using hd_dropWhile [of ?P xs] dw by auto
  have "distinct (map f (takeWhile ?P xs @ y # R))" using d xs by simp
  then have "f y \<notin> f ` set R" by simp
  then have "\<forall>e \<in> set R. f e \<noteq> f y" by (metis imageI)
  then have R: "filter ?P R = R" using y by (simp add: filter_id_conv)
  have T: "filter ?P (takeWhile ?P xs) = takeWhile ?P xs"
    using set_takeWhileD [of _ ?P xs] by (simp add: filter_id_conv)
  have "filter ?P xs = filter ?P (takeWhile ?P xs @ y # R)" using xs by simp
  also have "\<dots> = takeWhile ?P xs @ R" using y R T by simp
  finally have "takeWhile ?P xs @ R = filter ?P xs" by simp
  moreover have "y \<in> set xs" using xs by (metis in_set_conv_decomp)
  ultimately show ?thesis using y by simp
qed

subsection \<open>Tables as rebucketed lists\<close>

lemma concat_map_single:
  "concat (map (\<lambda>i. if i = k then M else []) [0..<n]) = (if k < n then M else [])"
  by (induction n) auto

lemma find_filter: "(\<And>x. P x \<Longrightarrow> Q x) \<Longrightarrow> find P (filter Q xs) = find P xs"
  by (induction xs) auto

lemma filter_bucket_concat:
  assumes dv: "n dvd n'" and n: "0 < n"
  shows "filter (\<lambda>e. g e mod n' = j) (concat (map (\<lambda>i. filter (\<lambda>e. g e mod n = i) es) [0..<n]))
         = filter (\<lambda>e. g e mod n' = (j::nat)) es"
proof -
  have imp: "g e mod n = j mod n" if "g e mod n' = j" for e
    using that dv by (metis mod_mod_cancel)
  have each: "filter (\<lambda>e. g e mod n' = j) (filter (\<lambda>e. g e mod n = i) es) =
              (if i = j mod n then filter (\<lambda>e. g e mod n' = j) es else [])" for i
  proof (cases "i = j mod n")
    case True
    have "filter (\<lambda>e. g e mod n' = j) (filter (\<lambda>e. g e mod n = i) es) =
          filter (\<lambda>e. g e mod n = i \<and> g e mod n' = j) es" by simp
    also have "\<dots> = filter (\<lambda>e. g e mod n' = j) es"
      by (rule filter_cong [OF refl]) (use True imp in auto)
    finally show ?thesis using True by simp
  next
    case False
    have "filter (\<lambda>e. g e mod n' = j) (filter (\<lambda>e. g e mod n = i) es) =
          filter (\<lambda>e. g e mod n = i \<and> g e mod n' = j) es" by simp
    also have "\<dots> = []" using False imp by (auto simp: filter_empty_conv)
    finally show ?thesis using False by simp
  qed
  have "filter (\<lambda>e. g e mod n' = j) (concat (map (\<lambda>i. filter (\<lambda>e. g e mod n = i) es) [0..<n]))
        = concat (map (\<lambda>i. filter (\<lambda>e. g e mod n' = j) (filter (\<lambda>e. g e mod n = i) es)) [0..<n])"
    by (simp only: filter_concat map_map comp_def)
  also have "\<dots>
        = concat (map (\<lambda>i. if i = j mod n then filter (\<lambda>e. g e mod n' = j) es else []) [0..<n])"
    by (simp only: each)
  also have "\<dots> = filter (\<lambda>e. g e mod n' = j) es"
    using n by (simp only: concat_map_single) simp
  finally show ?thesis .
qed

lemma rebucket_concat_rebucket:
  "n dvd n' \<Longrightarrow> 0 < n \<Longrightarrow> rebucket n' (concat (rebucket n es)) = rebucket n' es"
  unfolding rebucket_def
  by (rule map_cong [OF refl]) (rule filter_bucket_concat)

lemma rep_wf: "ht_rep es t \<Longrightarrow> ht_wf t"
proof -
  assume r: "ht_rep es t"
  then have g: "ht_geom t" and d: "distinct (map hash es)"
    and p: "ppEntries t = rebucket (unat (capacity t)) es" by (simp_all add: ht_rep_def)
  have b: "\<forall>i < length (ppEntries t). \<forall>e \<in> set (ppEntries t ! i).
             unat (hash e) mod unat (capacity t) = i"
    by (simp add: p length_rebucket nth_rebucket)
  have "distinct (map hash (concat (ppEntries t)))"
    unfolding p rebucket_def by (rule distinct_concat_buckets [OF d])
  with g b show ?thesis by (simp add: ht_wf_def)
qed

lemma rep_set: "ht_rep es t \<Longrightarrow> set (concat (ppEntries t)) = set es"
  by (simp del: set_concat add: ht_rep_def ht_geom_def set_concat_rebucket unat_gt_0)

lemma rep_find: "ht_rep es t \<Longrightarrow> find_entry t hv = find (\<lambda>e. hash e = hv) es"
proof -
  assume r: "ht_rep es t"
  then have "unat hv mod unat (capacity t) < unat (capacity t)"
    by (simp add: ht_rep_def ht_geom_def unat_gt_0)
  then have "find_entry t hv = find (\<lambda>e. hash e = hv)
        (filter (\<lambda>e. unat (hash e) mod unat (capacity t) = unat hv mod unat (capacity t)) es)"
    using r by (simp add: find_entry_def ht_rep_def nth_rebucket)
  also have "\<dots> = find (\<lambda>e. hash e = hv) es" by (rule find_filter) simp
  finally show ?thesis .
qed

lemma nth_filter_concat:
  assumes len: "length xss = n" and b: "\<forall>i < n. \<forall>e \<in> set (xss ! i). g e = i" and j: "j < n"
  shows "filter (\<lambda>e. g e = j) (concat xss) = xss ! j"
proof -
  have each: "filter (\<lambda>e. g e = j) (xss ! i) = (if i = j then xss ! j else [])"
    if "i \<in> set [0..<n]" for i
    using that b j by (auto simp: filter_id_conv filter_empty_conv)
  have m: "map (\<lambda>i. filter (\<lambda>e. g e = j) (xss ! i)) [0..<n] =
           map (\<lambda>i. if i = j then xss ! j else []) [0..<n]"
    by (rule map_cong [OF refl]) (rule each)
  have "concat xss = concat (map ((!) xss) [0..<n])" using len map_nth [of xss] by simp
  then have "filter (\<lambda>e. g e = j) (concat xss) =
             concat (map (\<lambda>i. filter (\<lambda>e. g e = j) (xss ! i)) [0..<n])"
    by (simp only: filter_concat map_map comp_def)
  also have "\<dots> = concat (map (\<lambda>i. if i = j then xss ! j else []) [0..<n])"
    by (simp only: m)
  also have "\<dots> = xss ! j" using j by (simp only: concat_map_single) simp
  finally show ?thesis .
qed

lemma wf_rep: "ht_wf t \<Longrightarrow> ht_rep (concat (ppEntries t)) t"
proof -
  assume w: "ht_wf t"
  then have g: "ht_geom t" and d: "distinct (map hash (concat (ppEntries t)))"
    and b: "\<forall>i < length (ppEntries t). \<forall>e \<in> set (ppEntries t ! i).
             unat (hash e) mod unat (capacity t) = i"
    by (simp_all add: ht_wf_def)
  have len: "length (ppEntries t) = unat (capacity t)" using g by (simp add: ht_geom_def)
  have "ppEntries t = rebucket (unat (capacity t)) (concat (ppEntries t))"
  proof (rule nth_equalityI)
    show "length (ppEntries t) = length (rebucket (unat (capacity t)) (concat (ppEntries t)))"
      by (simp add: len length_rebucket)
  next
    fix j assume "j < length (ppEntries t)"
    then have j: "j < unat (capacity t)" using len by simp
    from nth_filter_concat [OF len _ j, of "\<lambda>e. unat (hash e) mod unat (capacity t)"] b len
    show "ppEntries t ! j = rebucket (unat (capacity t)) (concat (ppEntries t)) ! j"
      using j by (simp add: nth_rebucket)
  qed
  with g d show ?thesis by (simp add: ht_rep_def)
qed

lemma rep_appended:
  assumes r: "ht_rep es t" and n: "hash e \<notin> hash ` set es"
  shows "ht_rep (es @ [e]) (appended t e)"
proof -
  from r have g: "ht_geom t" and d: "distinct (map hash es)"
    and p: "ppEntries t = rebucket (unat (capacity t)) es" by (simp_all add: ht_rep_def)
  let ?n = "unat (capacity t)" and ?i = "unat (hash e) mod unat (capacity t)"
  have i: "?i < ?n" using g by (simp add: ht_geom_def unat_gt_0)
  have "(rebucket ?n es)[?i := rebucket ?n es ! ?i @ [e]] = rebucket ?n (es @ [e])"
  proof (rule nth_equalityI)
    show "length ((rebucket ?n es)[?i := rebucket ?n es ! ?i @ [e]]) = length (rebucket ?n (es @ [e]))"
      by (simp add: length_rebucket)
  next
    fix j assume "j < length ((rebucket ?n es)[?i := rebucket ?n es ! ?i @ [e]])"
    then have j: "j < ?n" by (simp add: length_rebucket)
    then show "(rebucket ?n es)[?i := rebucket ?n es ! ?i @ [e]] ! j = rebucket ?n (es @ [e]) ! j"
      using i by (auto simp: nth_list_update length_rebucket nth_rebucket)
  qed
  then have "ppEntries (appended t e) = rebucket (unat (capacity (appended t e))) (es @ [e])"
    by (simp add: appended_def p)
  moreover have "ht_geom (appended t e)" using g by (simp add: appended_def ht_geom_def)
  moreover have "distinct (map hash (es @ [e]))" using d n by simp
  ultimately show ?thesis by (simp add: ht_rep_def)
qed

lemma rep_grown:
  assumes r: "ht_rep es t" and c: "unat (capacity t * 2) = 2 * unat (capacity t)"
  shows "ht_rep es (grown t a)"
proof -
  from r have g: "ht_geom t" and d: "distinct (map hash es)"
    and p: "ppEntries t = rebucket (unat (capacity t)) es" by (simp_all add: ht_rep_def)
  have n: "0 < unat (capacity t)" using g by (simp add: ht_geom_def unat_gt_0)
  have dv: "unat (capacity t) dvd unat (capacity t * 2)" using c by simp
  have "capacity t * 2 \<noteq> 0"
  proof
    assume "capacity t * 2 = 0"
    then have "unat (capacity t * 2) = 0" by simp
    with c n show False by simp
  qed
  then have "ht_geom (grown t a)" by (simp add: grown_def ht_geom_def length_rebucket)
  moreover have "ppEntries (grown t a) = rebucket (unat (capacity (grown t a))) es"
    by (simp add: grown_def p rebucket_concat_rebucket [OF dv n])
  ultimately show ?thesis using d by (simp add: ht_rep_def)
qed

lemma rep_removed:
  assumes r: "ht_rep es t"
  shows "ht_rep (filter (\<lambda>e. hash e \<noteq> hv) es) (removed t hv)"
proof -
  from r have g: "ht_geom t" and d: "distinct (map hash es)"
    and p: "ppEntries t = rebucket (unat (capacity t)) es" by (simp_all add: ht_rep_def)
  let ?n = "unat (capacity t)" and ?i = "unat hv mod unat (capacity t)"
  let ?P = "\<lambda>e. hash e \<noteq> hv"
  have i: "?i < ?n" using g by (simp add: ht_geom_def unat_gt_0)
  have "(rebucket ?n es)[?i := filter ?P (rebucket ?n es ! ?i)] = rebucket ?n (filter ?P es)"
  proof (rule nth_equalityI)
    show "length ((rebucket ?n es)[?i := filter ?P (rebucket ?n es ! ?i)]) =
          length (rebucket ?n (filter ?P es))"
      by (simp add: length_rebucket)
  next
    fix j assume "j < length ((rebucket ?n es)[?i := filter ?P (rebucket ?n es ! ?i)])"
    then have j: "j < ?n" by (simp add: length_rebucket)
    show "(rebucket ?n es)[?i := filter ?P (rebucket ?n es ! ?i)] ! j =
          rebucket ?n (filter ?P es) ! j"
    proof (cases "j = ?i")
      case True
      with i show ?thesis by (simp add: length_rebucket nth_rebucket conj_commute)
    next
      case False
      have "filter (\<lambda>e. unat (hash e) mod ?n = j) es =
            filter (\<lambda>e. hash e \<noteq> hv \<and> unat (hash e) mod ?n = j) es"
        by (rule filter_cong [OF refl]) (use False in auto)
      with False j i show ?thesis by (simp add: length_rebucket nth_rebucket)
    qed
  qed
  then have "ppEntries (removed t hv) = rebucket (unat (capacity (removed t hv))) (filter ?P es)"
    by (simp add: removed_def p)
  moreover have "ht_geom (removed t hv)" using g by (simp add: removed_def ht_geom_def)
  moreover have "distinct (map hash (filter ?P es))" using d by (rule distinct_map_filter)
  ultimately show ?thesis by (simp add: ht_rep_def)
qed

lemma notin_imageD: "v \<notin> f ` S \<Longrightarrow> \<forall>x\<in>S. f x \<noteq> v"
  by blast

lemma wf_chain_distinct:
  assumes w: "ht_wf t" and i: "i < length (ppEntries t)"
  shows "distinct (map hash (ppEntries t ! i))"
proof -
  from wf_rep [OF w] have d: "distinct (map hash (concat (ppEntries t)))"
    and p: "ppEntries t = rebucket (unat (capacity t)) (concat (ppEntries t))"
    by (simp_all add: ht_rep_def)
  from i p have "i < unat (capacity t)" by (metis length_rebucket)
  with p have "ppEntries t ! i =
      filter (\<lambda>e. unat (hash e) mod unat (capacity t) = i) (concat (ppEntries t))"
    by (metis nth_rebucket)
  with d show ?thesis by (simp only: distinct_map_filter)
qed

lemma wf_removed: "ht_wf t \<Longrightarrow> ht_wf (removed t hv)"
  by (rule rep_wf [OF rep_removed [OF wf_rep]])

lemma entries_removed:
  "ht_wf t \<Longrightarrow> set (concat (ppEntries (removed t hv))) =
     {e \<in> set (concat (ppEntries t)). hash e \<noteq> hv}"
  using rep_set [OF rep_removed [OF wf_rep, of t hv]] by (simp del: set_concat)

lemma removed_fields:
  "capacity (removed t hv) = capacity t" "pfnHash (removed t hv) = pfnHash t"
  "size_ht (removed t hv) = size_ht t - 1"
  by (simp_all add: removed_def)

text \<open>What a call of \<open>ht_remove\<close> that returns has done.\<close>

lemma ht_remove_D:
  assumes rm: "ht_remove (Some t) (Some key) ksz h = Inr (rc, pHt', h')" and w: "ht_wf t"
  shows "\<exists>hv. call_hash (pfnHash t) key ksz = Inr hv \<and>
       ((rc = HT_NOT_FOUND \<and> find_entry t hv = None \<and> pHt' = Some t \<and> h' = h)
      \<or> (rc = HT_OK \<and> (\<exists>e. find_entry t hv = Some e \<and> h' = free_item e h)
            \<and> pHt' = Some (removed t hv)))"
proof -
  from rm obtain hv where ch: "call_hash (pfnHash t) key ksz = Inr hv"
    by (auto simp: ht_remove_def split: sum.splits)
  let ?i = "unat hv mod unat (capacity t)"
  let ?P = "\<lambda>e. hash e \<noteq> hv"
  have g: "ht_geom t" by (rule wf_geom [OF w])
  have i: "?i < length (ppEntries t)" by (rule bucket_in_range [OF g])
  have d: "distinct (map hash (ppEntries t ! ?i))" by (rule wf_chain_distinct [OF w i])
  note eq = ht_remove_eq [OF g ch, of h]
  have "(rc = HT_NOT_FOUND \<and> find_entry t hv = None \<and> pHt' = Some t \<and> h' = h)
      \<or> (rc = HT_OK \<and> (\<exists>e. find_entry t hv = Some e \<and> h' = free_item e h)
            \<and> pHt' = Some (removed t hv))"
  proof (cases "ppEntries t ! ?i")
    case Nil
    with rm eq show ?thesis by simp
  next
    case (Cons x rest)
    show ?thesis
    proof (cases "hash x = hv")
      case True
      from d Cons True have "hv \<notin> hash ` set rest" by simp
      then have "\<forall>e \<in> set rest. hash e \<noteq> hv" by (rule notin_imageD)
      then have "filter ?P (x # rest) = rest" using True by (simp add: filter_id_conv)
      then have "removed t hv = t\<lparr>ppEntries := (ppEntries t)[?i := rest], size_ht := size_ht t - 1\<rparr>"
        by (simp add: removed_def Cons)
      moreover have "find_entry t hv = Some x" using True Cons by (simp add: find_entry_def)
      ultimately show ?thesis using rm eq Cons True by simp
    next
      case False
      show ?thesis
      proof (cases "dropWhile ?P rest")
        case Nil
        then have "\<forall>e \<in> set rest. hash e \<noteq> hv" by simp
        then have "find_entry t hv = None" using False Cons
          by (simp add: find_entry_def find_None_iff)
        with rm eq Cons False Nil show ?thesis by (simp del: dropWhile_eq_Nil_conv)
      next
        case dw: (Cons y R)
        from d Cons have dr: "distinct (map hash rest)" by simp
        from remove_first_filter [OF dr dw]
        have f: "takeWhile ?P rest @ R = filter ?P rest" and y: "hash y = hv" by simp_all
        have fy: "find_entry t hv = Some y"
          using False Cons dw y by (simp add: find_entry_def find_dropWhile comp_def del: dropWhile_eq_Nil_conv)
        show ?thesis
        proof (cases R)
          case Nil
          with rm eq Cons False dw show ?thesis by (simp del: dropWhile_eq_Nil_conv)
        next
          case (Cons z zs)
          have "filter ?P (x # rest) = x # takeWhile ?P rest @ z # zs"
            using f False Cons by simp
          then have "removed t hv = t\<lparr>ppEntries := (ppEntries t)[?i :=
                         x # takeWhile ?P rest @ z # zs], size_ht := size_ht t - 1\<rparr>"
            using \<open>ppEntries t ! ?i = x # rest\<close> by (simp add: removed_def)
          with rm eq \<open>ppEntries t ! ?i = x # rest\<close> False dw Cons fy show ?thesis
            by (simp del: dropWhile_eq_Nil_conv)
        qed
      qed
    qed
  qed
  with ch show ?thesis by blast
qed

text \<open>
  \<open>ht_remove\<close> succeeds when the entry to remove is the head of its chain or is followed
  by another entry.
\<close>

lemma ht_remove_ok:
  assumes w: "ht_wf t" and ch: "call_hash (pfnHash t) key ksz = Inr hv"
      and c: "ppEntries t ! (unat hv mod unat (capacity t)) = A @ e # B"
      and e: "hash e = hv" and ab: "A = [] \<or> B \<noteq> []"
  shows "ht_remove (Some t) (Some key) ksz h = Inr (HT_OK, Some (removed t hv), free_item e h)"
proof -
  let ?i = "unat hv mod unat (capacity t)"
  let ?P = "\<lambda>e. hash e \<noteq> hv"
  have g: "ht_geom t" by (rule wf_geom [OF w])
  have i: "?i < length (ppEntries t)" by (rule bucket_in_range [OF g])
  have d: "distinct (map hash (A @ e # B))" using wf_chain_distinct [OF w i] c by simp
  then have nA: "hv \<notin> hash ` set A" and nB: "hv \<notin> hash ` set B" using e by auto
  have A: "\<forall>a \<in> set A. hash a \<noteq> hv" by (rule notin_imageD [OF nA])
  have B: "\<forall>b \<in> set B. hash b \<noteq> hv" by (rule notin_imageD [OF nB])
  have fl: "filter ?P (A @ e # B) = A @ B" using A B e by (simp add: filter_id_conv)
  then have rmv: "removed t hv = t\<lparr>ppEntries := (ppEntries t)[?i := A @ B],
                                     size_ht := size_ht t - 1\<rparr>"
    by (simp add: removed_def c)
  note eq = ht_remove_eq [OF g ch, of h]
  show ?thesis
  proof (cases A)
    case Nil
    with eq c e rmv show ?thesis by simp
  next
    case (Cons a A')
    with ab obtain z zs where Bz: "B = z # zs" by (cases B) auto
    have a: "hash a \<noteq> hv" using A Cons by simp
    have A': "\<forall>a \<in> set A'. hash a \<noteq> hv" using A Cons by simp
    have dw: "dropWhile ?P (A' @ e # z # zs) = e # z # zs"
      using A' e by (simp add: dropWhile_append3)
    have tw: "takeWhile ?P (A' @ e # z # zs) = A'"
      using A' e by (simp add: takeWhile_tail)
    from eq c Cons Bz a dw tw rmv show ?thesis by (simp del: dropWhile_eq_Nil_conv)
  qed
qed

subsection \<open>The example values\<close>

lemma ex_init: "ht_init False ex_heap0 = Inr (HT_OK, Some ex_table, ex_heap)"
proof -
  have u: "unat HT_DEFAULT_CAP = 31" by (simp add: HT_DEFAULT_CAP_def)
  have s: "Suc (Suc 0) = 2" "Suc (Suc (Suc 0)) = 3" by simp_all
  show ?thesis
    by (simp add: ht_init_def ex_heap0_def ex_heap_def ex_table_def malloc_def u s)
       (simp add: HT_DEFAULT_CAP_def)
qed

lemma hash_Test: "default_hash_impl key_Test 5 = Inr 5995370896889781038"
  by (simp add: default_hash_impl_def key_Test_def HT_NO_SIZE_def sdbm_loop.simps)

lemma ex_table_geom: "ht_geom ex_table"
  by (simp add: ht_geom_def ex_table_def)

lemma ex_remove_faults: "ht_remove (Some ex_table) (Some key_Test) 5 ex_heap = Inl NullDeref"
  using ht_remove_eq [OF ex_table_geom, of key_Test 5 5995370896889781038 ex_heap]
  by (simp add: call_hash_def ex_table_def hash_Test)

subsection \<open>Insertion into a well-formed table\<close>

lemma ht_insert_OK_wf:
  assumes ins: "ht_insert (Some t) (Some key) ksz p d pol h = Inr (HT_OK, pHt', h')"
      and w: "ht_wf t"
  shows "\<exists>t' e hv. pHt' = Some t' \<and> ht_wf t' \<and> pfnHash t' = pfnHash t
           \<and> call_hash (pfnHash t) key ksz = Inr hv \<and> hash e = hv
           \<and> hv \<notin> hash ` set (concat (ppEntries t))
           \<and> set (concat (ppEntries t')) = insert e (set (concat (ppEntries t)))
           \<and> size_ht t' = size_ht t + 1
           \<and> capacity t' = (if needs_growth t then capacity t * 2 else capacity t)
           \<and> last (ppEntries t' ! (unat hv mod unat (capacity t'))) = e
           \<and> data_size e = d \<and> (pol \<noteq> HT_TRANSIENT \<longrightarrow> pData e = p)
           \<and> (pol = HT_TRANSIENT \<longrightarrow> pData e \<noteq> NULL \<and>
                    (\<exists>src. unat d \<le> length src
                       \<and> blocks h' (pData e) = Some (Raw (take (unat d) src))
                       \<and> (\<not> needs_growth t \<longrightarrow> p \<le> brk h \<longrightarrow> bytes_at h p = Inr src)))"
proof -
  have ne: "HT_OK \<noteq> HT_ARG_NULL" "HT_OK \<noteq> HT_DUPLICATE" "HT_OK \<noteq> HT_ALLOC_ERR"
    by (simp_all add: ht_codes)
  from ht_insert_D [OF ins wf_geom [OF w]] ne obtain hv e t1 where
    ch: "call_hash (pfnHash t) key ksz = Inr hv" and nf: "find_entry t hv = None"
    and t1: "if needs_growth t then t1 = grown t (Suc (brk h)) else t1 = t"
    and c: "capacity t1 \<noteq> 0"
    and r: "pHt' = Some (appended t1 e)"
    and e: "hash e = hv" "data_size e = d" "pol \<noteq> HT_TRANSIENT \<longrightarrow> pData e = p"
      "pol = HT_TRANSIENT \<longrightarrow> pData e \<noteq> NULL \<and>
                    (\<exists>src. unat d \<le> length src
                       \<and> blocks h' (pData e) = Some (Raw (take (unat d) src))
                       \<and> (\<not> needs_growth t \<longrightarrow> p \<le> brk h \<longrightarrow> bytes_at h p = Inr src))"
    by auto
  from nf have n: "hv \<notin> hash ` set (concat (ppEntries t))"
    using find_entry_None_iff [OF w, of hv] by blast
  have w1: "ht_wf t1" and s1: "set (concat (ppEntries t1)) = set (concat (ppEntries t))"
    and f1: "pfnHash t1 = pfnHash t" "size_ht t1 = size_ht t"
      "capacity t1 = (if needs_growth t then capacity t * 2 else capacity t)"
  proof -
    show "ht_wf t1"
    proof (cases "needs_growth t")
      case True
      with t1 c have "capacity t * 2 \<noteq> 0" by (simp add: grown_fields)
      with True t1 show ?thesis using wf_grown [OF w] by simp
    next
      case False
      with t1 w show ?thesis by simp
    qed
    show "set (concat (ppEntries t1)) = set (concat (ppEntries t))"
    proof (cases "needs_growth t")
      case True
      with t1 c have "capacity t * 2 \<noteq> 0" by (simp add: grown_fields)
      with True t1 show ?thesis using entries_grown [of t] by simp
    next
      case False
      with t1 show ?thesis by simp
    qed
    show "pfnHash t1 = pfnHash t" "size_ht t1 = size_ht t"
      "capacity t1 = (if needs_growth t then capacity t * 2 else capacity t)"
      using t1 by (auto simp: grown_fields split: if_splits)
  qed
  have n1: "hash e \<notin> hash ` set (concat (ppEntries t1))" using n e(1) s1 by simp
  have w': "ht_wf (appended t1 e)" by (rule wf_appended [OF w1 n1])
  have s': "set (concat (ppEntries (appended t1 e))) = insert e (set (concat (ppEntries t)))"
    using entries_appended [OF wf_geom [OF w1], of e] s1 by simp
  have l: "last (ppEntries (appended t1 e) ! (unat hv mod unat (capacity (appended t1 e)))) = e"
    using wf_in_range [OF w1, of hv] e(1) by (simp add: appended_def)
  show ?thesis
    apply (rule exI [of _ "appended t1 e"], rule exI [of _ e], rule exI [of _ hv])
    using r w' ch e n s' l f1 by (simp add: appended_hash_fields del: set_concat)
qed

text \<open>A call of \<open>ht_insert\<close> that does not grow the table, copy the value or fail.\<close>

lemma ht_insert_ok:
  assumes g: "ht_geom t" and fn: "pfnHash t = Some fn" and hv: "fn key ksz = Inr hv"
      and nf: "find_entry t hv = None" and ng: "\<not> needs_growth t"
      and c: "capacity t \<noteq> HT_NO_SIZE" and p: "p \<noteq> NULL" and pol: "pol \<noteq> HT_TRANSIENT"
      and a: "alloc_fails h = []" and k: "unat ksz \<le> length key"
  shows "ht_insert (Some t) (Some key) ksz p d pol h =
     Inr (HT_OK,
          Some (appended t \<lparr>entry_at = Suc (brk h), pKey = Suc (Suc (brk h)), key_size = ksz,
                            pData = p, data_size = d, pfnFree = pol, hash = hv\<rparr>),
          h\<lparr>blocks := (blocks h)(Suc (brk h) \<mapsto> EntryStruct,
                                  Suc (Suc (brk h)) \<mapsto> Raw (take (unat ksz) key)),
            brk := Suc (Suc (brk h))\<rparr>)"
proof -
  have c0: "capacity t \<noteq> 0" and len: "length (ppEntries t) = unat (capacity t)"
    using g by (simp_all add: ht_geom_def)
  show ?thesis
    using fn hv nf ng p pol a k
    by (simp add: ht_insert_def hash_exists_eq [OF g] insert_entry_def malloc_def memcpy_def
        place_item_eq [OF c0 c len] appended_def Let_def)
qed

lemma needs_growth_nat:
  "needs_growth t \<longleftrightarrow> 7 * unat (capacity t) < 10 * unat (size_ht t + 1)"
proof -
  have "real (unat (capacity t)) * (7 / 10) < real (unat (size_ht t + 1))
        \<longleftrightarrow> real (7 * unat (capacity t)) < real (10 * unat (size_ht t + 1))"
    by (simp only: of_nat_mult of_nat_numeral) (simp add: field_simps)
  also have "\<dots> \<longleftrightarrow> 7 * unat (capacity t) < 10 * unat (size_ht t + 1)"
    by (rule of_nat_less_iff)
  finally show ?thesis
    unfolding needs_growth_def HT_MAX_CAP_def by (simp only: )
qed

lemma find_SomeD2: "find P xs = Some x \<Longrightarrow> x \<in> set xs \<and> P x"
  by (induction xs) (auto split: if_splits)

lemma ex_table_wf: "ht_wf ex_table"
  by (simp add: ht_wf_def ex_table_geom) (simp add: ex_table_def)

lemma ex_find_none: "find_entry ex_table 5995370896889781038 = None"
  by (simp add: find_entry_def ex_table_def)

lemma ex_insert:
  "ht_insert (Some ex_table) (Some key_Test) 5 1 5 HT_STATIC ex_heap =
     Inr (HT_OK, Some ex_table1, ex_heap1)"
proof -
  have "ht_insert (Some ex_table) (Some key_Test) 5 1 5 HT_STATIC ex_heap =
     Inr (HT_OK,
          Some (appended ex_table \<lparr>entry_at = Suc (brk ex_heap), pKey = Suc (Suc (brk ex_heap)),
                  key_size = 5, pData = 1, data_size = 5, pfnFree = HT_STATIC,
                  hash = 5995370896889781038\<rparr>),
          ex_heap\<lparr>blocks := (blocks ex_heap)(Suc (brk ex_heap) \<mapsto> EntryStruct,
                                  Suc (Suc (brk ex_heap)) \<mapsto> Raw (take (unat (5::ht_size_t)) key_Test)),
            brk := Suc (Suc (brk ex_heap))\<rparr>)"
  proof -
    have pf: "pfnHash ex_table = Some default_hash_impl" by (simp add: ex_table_def)
    have ng: "\<not> needs_growth ex_table" by (simp add: needs_growth_nat ex_table_def)
    have c: "capacity ex_table \<noteq> HT_NO_SIZE" by (simp add: ex_table_def HT_NO_SIZE_def)
    have a: "alloc_fails ex_heap = []" by (simp add: ex_heap_def)
    have k: "unat (5::ht_size_t) \<le> length key_Test" by (simp add: key_Test_def)
    have p: "(1::nat) \<noteq> NULL" and pol: "HT_STATIC \<noteq> HT_TRANSIENT" by simp_all
    show ?thesis
      by (rule ht_insert_ok [OF ex_table_geom pf hash_Test ex_find_none ng c p pol a k])
  qed
  moreover have "brk ex_heap = 3" by (simp add: ex_heap_def)
  moreover have "take (unat (5::ht_size_t)) key_Test = key_Test" by (simp add: key_Test_def)
  ultimately show ?thesis by (simp add: ex_table1_def ex_entry_def ex_heap1_def)
qed

lemma ex_table1_wf: "ht_wf ex_table1"
  unfolding ex_table1_def
  by (rule wf_appended [OF ex_table_wf]) (simp add: ex_table_def)

lemma ex_table1_entries: "set (concat (ppEntries ex_table1)) = {ex_entry}"
  unfolding ex_table1_def
  using entries_appended [OF ex_table_geom, of ex_entry] by (simp add: ex_table_def)

lemma ex_table1_hash: "call_hash (pfnHash ex_table1) key_Test 5 = Inr 5995370896889781038"
  by (simp add: call_hash_def ex_table1_def appended_hash_fields ex_table_def hash_Test)

lemma ht_insert_stored:
  assumes r: "ht_rep es t" and fn: "pfnHash t = Some fn" and hv: "fn key ksz = Inr hv"
      and nf: "hv \<notin> hash ` set es" and ng: "\<not> needs_growth t"
      and c: "capacity t \<noteq> HT_NO_SIZE" and p: "p \<noteq> NULL" and pol: "pol \<noteq> HT_TRANSIENT"
      and a: "alloc_fails h = []" and k: "unat ksz \<le> length key"
  shows "ht_insert (Some t) (Some key) ksz p d pol h =
           Inr (HT_OK, Some (appended t (stored_entry h ksz p d pol hv)), stored_heap h key ksz)
         \<and> ht_rep (es @ [stored_entry h ksz p d pol hv]) (appended t (stored_entry h ksz p d pol hv))
         \<and> alloc_fails (stored_heap h key ksz) = []"
proof -
  have g: "ht_geom t" using r by (simp add: ht_rep_def)
  have "find_entry t hv = None" using nf by (simp add: rep_find [OF r] find_None_iff) blast
  from ht_insert_ok [OF g fn hv this ng c p pol a k, of d]
  have "ht_insert (Some t) (Some key) ksz p d pol h =
           Inr (HT_OK, Some (appended t (stored_entry h ksz p d pol hv)), stored_heap h key ksz)"
    by (simp add: stored_entry_def stored_heap_def)
  moreover have "ht_rep (es @ [stored_entry h ksz p d pol hv])
                   (appended t (stored_entry h ksz p d pol hv))"
    by (rule rep_appended [OF r]) (simp add: stored_entry_def nf)
  ultimately show ?thesis using a by (simp add: stored_heap_def)
qed



lemma unat_double: "unat (c::ht_size_t) * 2 < 2 ^ 32 \<Longrightarrow> unat (c * 2) = 2 * unat c"
  by (simp add: unat_word_ariths)

lemma ht_get_item_found:
  assumes w: "ht_wf t" and ch: "call_hash (pfnHash t) key ksz = Inr hv"
      and e: "e \<in> set (concat (ppEntries t))" "hash e = hv"
  shows "ht_get_item (Some t) (Some key) ksz (Some a) (Some b) =
           Inr (HT_OK, Some (pData e), Some (data_size e))"
proof -
  have "find_entry t hv = Some e" using find_entry_Some_iff [OF w, of hv e] e by blast
  with ht_get_item_eq [OF wf_geom [OF w] ch, of a b] show ?thesis by simp
qed

lemma ht_get_item_absent:
  assumes w: "ht_wf t" and ch: "call_hash (pfnHash t) key ksz = Inr hv"
      and n: "hv \<notin> hash ` set (concat (ppEntries t))"
  shows "ht_get_item (Some t) (Some key) ksz (Some a) (Some b) =
           Inr (HT_NOT_FOUND, Some NULL, Some HT_NO_SIZE)"
proof -
  have "find_entry t hv = None" using find_entry_None_iff [OF w, of hv] n by blast
  with ht_get_item_eq [OF wf_geom [OF w] ch, of a b] show ?thesis by simp
qed

lemma ht_insert_OK_wfE:
  assumes "ht_insert (Some t) (Some key) ksz p d pol h = Inr (HT_OK, Some t', h')" and "ht_wf t"
  obtains e hv where "ht_wf t'" and "pfnHash t' = pfnHash t"
    and "call_hash (pfnHash t) key ksz = Inr hv" and "hash e = hv"
    and "hv \<notin> hash ` set (concat (ppEntries t))"
    and "set (concat (ppEntries t')) = insert e (set (concat (ppEntries t)))"
    and "size_ht t' = size_ht t + 1"
    and "capacity t' = (if needs_growth t then capacity t * 2 else capacity t)"
    and "last (ppEntries t' ! (unat hv mod unat (capacity t'))) = e"
    and "data_size e = d" and "pol \<noteq> HT_TRANSIENT \<longrightarrow> pData e = p"
proof -
  from ht_insert_OK_wf [OF assms] obtain t'' e hv where
    T: "Some t' = Some t''" and F: "ht_wf t'' \<and> pfnHash t'' = pfnHash t
           \<and> call_hash (pfnHash t) key ksz = Inr hv \<and> hash e = hv
           \<and> hv \<notin> hash ` set (concat (ppEntries t))
           \<and> set (concat (ppEntries t'')) = insert e (set (concat (ppEntries t)))
           \<and> size_ht t'' = size_ht t + 1
           \<and> capacity t'' = (if needs_growth t then capacity t * 2 else capacity t)
           \<and> last (ppEntries t'' ! (unat hv mod unat (capacity t''))) = e
           \<and> data_size e = d \<and> (pol \<noteq> HT_TRANSIENT \<longrightarrow> pData e = p)"
    by blast
  from T have eq: "t'' = t'" by simp
  note F' = F [unfolded eq]
  from F' that show ?thesis by blast
qed

subsection \<open>One call on a table that holds a list of entries\<close>

lemma length_filter_other:
  "distinct (map f xs) \<Longrightarrow> x \<in> set xs \<Longrightarrow>
   length (filter (\<lambda>e. f e \<noteq> f x) xs) = length xs - 1"
proof (induction xs)
  case Nil
  then show ?case by simp
next
  case (Cons y ys)
  show ?case
  proof (cases "f y = f x")
    case True
    from Cons.prems(1) have "f y \<notin> f ` set ys" by simp
    with True have "\<forall>e \<in> set ys. f e \<noteq> f x" by (metis imageI)
    then have "filter (\<lambda>e. f e \<noteq> f x) ys = ys" by (simp add: filter_id_conv)
    with True show ?thesis by simp
  next
    case False
    with Cons.prems have x: "x \<in> set ys" and d: "distinct (map f ys)" by auto
    from Cons.IH [OF d x] False x show ?thesis by (cases ys) auto
  qed
qed

lemma growth_bound:
  assumes ng: "needs_growth t" and s: "unat (size_ht t) < 1000000000"
  shows "unat (capacity t) * 2 < 2 ^ 32"
proof -
  have "unat (size_ht t + 1) \<le> unat (size_ht t) + 1" by (simp add: unat_word_ariths)
  with ng s have "7 * unat (capacity t) < 10 * 1000000000" by (simp add: needs_growth_nat)
  then show ?thesis by simp
qed

lemma size_succ:
  "unat (s::ht_size_t) < 1000000000 \<Longrightarrow> unat (s + 1) = unat s + 1"
  by (simp add: unat_word_ariths)

lemma rep_hash_fn: "ht_rep es t \<Longrightarrow> ht_rep es (t\<lparr>pfnHash := f\<rparr>)"
  by (simp add: ht_rep_def ht_geom_def length_rebucket)

lemma rep_find_None: "ht_rep es t \<Longrightarrow> find_entry t hv = None \<longleftrightarrow> hv \<notin> hash ` set es"
  by (simp add: rep_find find_None_iff) blast

lemma rep_find_Some:
  "ht_rep es t \<Longrightarrow> find_entry t hv = Some e \<longleftrightarrow> e \<in> set es \<and> hash e = hv"
proof -
  assume r: "ht_rep es t"
  have "find_entry t hv = Some e \<longleftrightarrow> e \<in> set (concat (ppEntries t)) \<and> hash e = hv"
    by (rule find_entry_Some_iff [OF rep_wf [OF r]])
  then show ?thesis by (simp only: rep_set [OF r])
qed

lemma insert_holds:
  assumes ins: "ht_insert (Some t) pKey_arg ksz p d pol h = Inr (rc, pHt', h')"
      and hd: "ht_holds es t" and b: "length es < 1000000000"
  shows "\<exists>t' es'. pHt' = Some t' \<and> ht_holds es' t'
          \<and> map hash es' = logged (Insert pKey_arg ksz p d pol) (Some t) rc (map hash es)
          \<and> length es' \<le> Suc (length es) \<and> pfnHash t' = pfnHash t \<and> set es \<subseteq> set es'"
proof (cases pKey_arg)
  case None
  with ins have "rc = HT_ARG_NULL \<and> pHt' = Some t" by (simp add: ht_insert_def)
  with None hd show ?thesis by (intro exI [of _ t] exI [of _ es]) simp
next
  case (Some key)
  from hd have r: "ht_rep es t" and sz: "unat (size_ht t) = length es"
    by (simp_all add: ht_holds_def)
  have g: "ht_geom t" using r by (simp add: ht_rep_def)
  have gb: "unat (capacity t) * 2 < 2 ^ 32" if "needs_growth t"
    using growth_bound [OF that] sz b by simp
  have rg: "ht_holds es (grown t a)" if "needs_growth t" for a
    using rep_grown [OF r unat_double [OF gb [OF that]], of a] sz
    by (simp add: ht_holds_def grown_fields)
  have ne: "HT_ARG_NULL \<noteq> HT_OK" "HT_DUPLICATE \<noteq> HT_OK" "HT_ALLOC_ERR \<noteq> HT_OK"
    by (simp_all add: ht_codes)
  note D = ht_insert_D [OF ins [unfolded Some] g]
  have same: ?thesis if "rc \<noteq> HT_OK" "pHt' = Some t"
    using that Some hd by (intro exI [of _ t] exI [of _ es]) simp
  have grw: ?thesis if "rc \<noteq> HT_OK" "needs_growth t" "pHt' = Some (grown t (Suc (brk h)))"
    using that Some rg [OF that(2)]
    by (intro exI [of _ "grown t (Suc (brk h))"] exI [of _ es]) (simp add: grown_fields)
  have ok: ?thesis
    if o: "rc = HT_OK" "call_hash (pfnHash t) key ksz = Inr hv" "find_entry t hv = None"
        "if needs_growth t then t1 = grown t (Suc (brk h)) else t1 = t"
        "pHt' = Some (appended t1 e)" "hash e = hv" for hv e t1
  proof -
    have h1: "ht_holds es t1"
      using o(4) hd rg by (cases "needs_growth t") simp_all
    then have r1: "ht_rep es t1" and sz1: "unat (size_ht t1) = length es"
      by (simp_all add: ht_holds_def)
    have f1: "pfnHash t1 = pfnHash t"
      using o(4) by (cases "needs_growth t") (simp_all add: grown_fields)
    have n: "hash e \<notin> hash ` set es" using o(3) o(6) rep_find_None [OF r, of hv] by simp
    have r': "ht_rep (es @ [e]) (appended t1 e)" by (rule rep_appended [OF r1 n])
    have "unat (size_ht t1 + 1) = length es + 1" using size_succ [of "size_ht t1"] sz1 b by simp
    then have hd': "ht_holds (es @ [e]) (appended t1 e)"
      using r' by (simp add: ht_holds_def appended_hash_fields)
    have lg: "map hash (es @ [e]) = logged (Insert pKey_arg ksz p d pol) (Some t) rc (map hash es)"
      using o(1) o(2) o(6) Some by simp
    show ?thesis
      apply (rule exI [of _ "appended t1 e"], rule exI [of _ "es @ [e]"])
      using o(5) hd' lg f1 by (simp add: appended_hash_fields) auto
  qed
  from D show ?thesis
  proof (elim disjE)
    assume "rc = HT_ARG_NULL \<and> pHt' = Some t \<and> h' = h"
    with ne show ?thesis by (intro same) simp_all
  next
    assume "rc = HT_DUPLICATE \<and> pHt' = Some t \<and> h' = h \<and>
            (\<exists>hv. call_hash (pfnHash t) key ksz = Inr hv \<and> find_entry t hv \<noteq> None)"
    with ne show ?thesis by (intro same) simp_all
  next
    assume a: "rc = HT_ALLOC_ERR \<and>
            (pHt' = Some t \<or> (needs_growth t \<and> pHt' = Some (grown t (Suc (brk h)))))"
    then have "pHt' = Some t \<or> (needs_growth t \<and> pHt' = Some (grown t (Suc (brk h))))"
      by simp
    then show ?thesis
    proof
      assume "pHt' = Some t"
      with a ne show ?thesis by (intro same) simp_all
    next
      assume "needs_growth t \<and> pHt' = Some (grown t (Suc (brk h)))"
      with a ne show ?thesis by (intro grw) simp_all
    qed
  next
    assume "rc = HT_OK \<and> p \<noteq> NULL \<and>
            (\<exists>hv e t1. call_hash (pfnHash t) key ksz = Inr hv \<and> find_entry t hv = None
               \<and> (if needs_growth t then t1 = grown t (Suc (brk h)) else t1 = t)
               \<and> capacity t1 \<noteq> 0 \<and> capacity t1 \<noteq> HT_NO_SIZE
               \<and> pHt' = Some (appended t1 e)
               \<and> hash e = hv \<and> data_size e = d \<and> key_size e = ksz \<and> pfnFree e = pol
               \<and> (pol \<noteq> HT_TRANSIENT \<longrightarrow> pData e = p)
               \<and> (pol = HT_TRANSIENT \<longrightarrow> pData e \<noteq> NULL \<and>
                    (\<exists>src. unat d \<le> length src
                       \<and> blocks h' (pData e) = Some (Raw (take (unat d) src))
                       \<and> (\<not> needs_growth t \<longrightarrow> p \<le> brk h \<longrightarrow> bytes_at h p = Inr src))))"
    then obtain hv e t1 where "rc = HT_OK" "call_hash (pfnHash t) key ksz = Inr hv"
        "find_entry t hv = None"
        "if needs_growth t then t1 = grown t (Suc (brk h)) else t1 = t"
        "pHt' = Some (appended t1 e)" "hash e = hv"
      by blast
    then show ?thesis by (rule ok)
  qed
qed

lemma remove_holds:
  assumes rm: "ht_remove (Some t) pKey_arg ksz h = Inr (rc, pHt', h')"
      and hd: "ht_holds es t"
  shows "\<exists>t' es'. pHt' = Some t' \<and> ht_holds es' t'
          \<and> map hash es' = logged (Remove pKey_arg ksz) (Some t) rc (map hash es)
          \<and> length es' \<le> length es \<and> pfnHash t' = pfnHash t
          \<and> (\<forall>e \<in> set es. e \<in> set es' \<or>
                (\<exists>k. pKey_arg = Some k \<and> call_hash (pfnHash t) k ksz = Inr (hash e)))"
proof (cases pKey_arg)
  case None
  with rm have "rc = HT_ARG_NULL \<and> pHt' = Some t" by (simp add: ht_remove_def)
  with None hd show ?thesis by (intro exI [of _ t] exI [of _ es]) simp
next
  case (Some key)
  from hd have r: "ht_rep es t" and sz: "unat (size_ht t) = length es"
    by (simp_all add: ht_holds_def)
  have d: "distinct (map hash es)" using r by (simp add: ht_rep_def)
  from ht_remove_D [OF rm [unfolded Some] rep_wf [OF r]] obtain hv where
    ch: "call_hash (pfnHash t) key ksz = Inr hv" and
    c: "(rc = HT_NOT_FOUND \<and> find_entry t hv = None \<and> pHt' = Some t \<and> h' = h)
      \<or> (rc = HT_OK \<and> (\<exists>e. find_entry t hv = Some e \<and> h' = free_item e h)
            \<and> pHt' = Some (removed t hv))"
    by blast
  from c show ?thesis
  proof
    assume "rc = HT_NOT_FOUND \<and> find_entry t hv = None \<and> pHt' = Some t \<and> h' = h"
    with Some hd show ?thesis
      by (intro exI [of _ t] exI [of _ es]) (simp add: ht_codes)
  next
    assume a: "rc = HT_OK \<and> (\<exists>e. find_entry t hv = Some e \<and> h' = free_item e h)
            \<and> pHt' = Some (removed t hv)"
    then obtain e where "find_entry t hv = Some e" by blast
    then have e: "e \<in> set es" "hash e = hv" using rep_find_Some [OF r, of hv e] by simp_all
    let ?es = "filter (\<lambda>x. hash x \<noteq> hv) es"
    have len: "length ?es = length es - 1" using length_filter_other [OF d e(1)] e(2) by simp
    have "es \<noteq> []" using e(1) by auto
    then have "size_ht t \<noteq> 0" using sz by auto
    then have "unat (size_ht t - 1) = length es - 1" using sz by (simp add: unat_minus_one)
    then have hd': "ht_holds ?es (removed t hv)"
      using rep_removed [OF r, of hv] len by (simp add: ht_holds_def removed_fields)
    have lg: "map hash ?es = filter (\<lambda>v. v \<noteq> hv) (map hash es)"
      by (simp add: filter_map comp_def)
    have keep: "\<forall>x \<in> set es. x \<in> set ?es \<or>
                (\<exists>k. Some key = Some k \<and> call_hash (pfnHash t) k ksz = Inr (hash x))"
      using ch by auto
    from a hd' lg keep len Some ch show ?thesis
      by (intro exI [of _ "removed t hv"] exI [of _ ?es]) (simp add: removed_fields)
  qed
qed

lemma set_hash_holds:
  assumes sh: "ht_set_hash_func (Some t) pFn = (rc, pHt')" and hd: "ht_holds es t"
  shows "\<exists>t'. pHt' = Some t' \<and> ht_holds es t' \<and> (es \<noteq> [] \<longrightarrow> pfnHash t' = pfnHash t)"
proof (cases pFn)
  case None
  with sh hd show ?thesis by (auto simp: ht_set_hash_func_def)
next
  case (Some fn)
  show ?thesis
  proof (cases "size_ht t > 0")
    case True
    with sh Some hd show ?thesis by (auto simp: ht_set_hash_func_def)
  next
    case False
    then have "size_ht t = 0" by (simp add: word_greater_zero_iff)
    then have "es = []" using hd by (simp add: ht_holds_def)
    moreover have "ht_holds es (t\<lparr>pfnHash := Some fn\<rparr>)"
      using hd rep_hash_fn [of es t] by (simp add: ht_holds_def)
    ultimately show ?thesis using sh Some False by (auto simp: ht_set_hash_func_def)
  qed
qed

lemma step_holds:
  assumes ap: "apply_op op (Some t) h = Inr (rc, pHt', h')"
      and hd: "ht_holds es t" and b: "length es < 1000000000"
  shows "\<exists>t' es'. pHt' = Some t' \<and> ht_holds es' t'
          \<and> map hash es' = logged op (Some t) rc (map hash es)
          \<and> length es' \<le> Suc (length es)
          \<and> (es \<noteq> [] \<longrightarrow> pfnHash t' = pfnHash t)
          \<and> (\<forall>e \<in> set es. e \<in> set es' \<or>
                (\<exists>k n. op = Remove (Some k) n \<and> call_hash (pfnHash t) k n = Inr (hash e)))"
proof (cases op)
  case (Insert k n p d pol)
  with ap have "ht_insert (Some t) k n p d pol h = Inr (rc, pHt', h')" by simp
  from insert_holds [OF this hd b] obtain t' es' where
    "pHt' = Some t' \<and> ht_holds es' t'
          \<and> map hash es' = logged (Insert k n p d pol) (Some t) rc (map hash es)
          \<and> length es' \<le> Suc (length es) \<and> pfnHash t' = pfnHash t \<and> set es \<subseteq> set es'"
    by blast
  with Insert show ?thesis by (intro exI [of _ t'] exI [of _ es']) auto
next
  case (Remove k n)
  with ap have "ht_remove (Some t) k n h = Inr (rc, pHt', h')" by simp
  from remove_holds [OF this hd] obtain t' es' where
    "pHt' = Some t' \<and> ht_holds es' t'
          \<and> map hash es' = logged (Remove k n) (Some t) rc (map hash es)
          \<and> length es' \<le> length es \<and> pfnHash t' = pfnHash t
          \<and> (\<forall>e \<in> set es. e \<in> set es' \<or>
                (\<exists>k'. k = Some k' \<and> call_hash (pfnHash t) k' n = Inr (hash e)))"
    by blast
  with Remove show ?thesis by (intro exI [of _ t'] exI [of _ es']) auto
next
  case (SetHashFunc fn)
  with ap obtain rc1 where "ht_set_hash_func (Some t) fn = (rc1, pHt')"
    by (cases "ht_set_hash_func (Some t) fn") auto
  from set_hash_holds [OF this hd] obtain t' where
    "pHt' = Some t' \<and> ht_holds es t' \<and> (es \<noteq> [] \<longrightarrow> pfnHash t' = pfnHash t)" by blast
  with SetHashFunc show ?thesis by (intro exI [of _ t'] exI [of _ es]) auto
qed

subsection \<open>Sequences of calls\<close>

lemma run_holds:
  assumes "run ops (Some t, h) = Inr (pHt', h')" and "ht_holds es t"
      and "length es + length ops \<le> 1000000000"
  shows "\<exists>t' es'. pHt' = Some t' \<and> ht_holds es' t'
           \<and> map hash es' = insertion_log ops (map hash es) (Some t, h)"
  using assms
proof (induction ops arbitrary: t h es)
  case Nil
  then show ?case by auto
next
  case (Cons op ops)
  from Cons.prems(1) obtain rc pHt1 h1 where
    ap: "apply_op op (Some t) h = Inr (rc, pHt1, h1)" and
    rn: "run ops (pHt1, h1) = Inr (pHt', h')"
    by (auto split: sum.splits)
  have b: "length es < 1000000000" using Cons.prems(3) by simp
  from step_holds [OF ap Cons.prems(2) b] obtain t1 es1 where
    t1: "pHt1 = Some t1" and h1: "ht_holds es1 t1"
    and lg: "map hash es1 = logged op (Some t) rc (map hash es)"
    and ln: "length es1 \<le> Suc (length es)"
    by blast
  have b1: "length es1 + length ops \<le> 1000000000" using ln Cons.prems(3) by simp
  from Cons.IH [OF rn [unfolded t1] h1 b1] obtain t' es' where
    "pHt' = Some t'" "ht_holds es' t'"
    "map hash es' = insertion_log ops (map hash es1) (Some t1, h1)"
    by blast
  then show ?case using ap t1 lg by (intro exI [of _ t'] exI [of _ es']) simp
qed


lemma rebucket_Nil: "rebucket n [] = replicate n []"
  by (simp add: rebucket_def map_replicate_const)



lemma wf_holds:
  "ht_wf t \<Longrightarrow> unat (size_ht t) = length (concat (ppEntries t)) \<Longrightarrow>
   ht_holds (concat (ppEntries t)) t"
  by (simp add: ht_holds_def wf_rep)

subsection \<open>The calls of test\_set\_hash\_func\<close>

lemma dummy_hash:
  "dummy_hahser key_Test n = Inr 1" "dummy_hahser key_Test2 n = Inr 32"
  "dummy_hahser key_Test3 n = Inr 63"
  by (simp_all add: dummy_hahser_def key_Test_def key_Test2_def key_Test3_def HT_DEFAULT_CAP_def)


lemma ex_dummy_fields:
  "pfnHash ex_dummy = Some dummy_hahser" "capacity ex_dummy = 31" "size_ht ex_dummy = 0"
  by (simp_all add: ex_dummy_def ex_table_def)

lemma ex_dummy_rep: "ht_rep [] ex_dummy"
  by (simp add: ht_rep_def ht_geom_def ex_dummy_def ex_table_def rebucket_Nil)

lemma ex_e_hash: "hash ex_e1 = 1" "hash ex_e2 = 32" "hash ex_e3 = 63"
  by (simp_all add: ex_e1_def ex_e2_def ex_e3_def stored_entry_def)

lemma ex_d_fields:
  "pfnHash ex_d1 = Some dummy_hahser" "capacity ex_d1 = 31" "size_ht ex_d1 = 1"
  "pfnHash ex_d2 = Some dummy_hahser" "capacity ex_d2 = 31" "size_ht ex_d2 = 2"
  "pfnHash ex_d3 = Some dummy_hahser" "capacity ex_d3 = 31" "size_ht ex_d3 = 3"
  "pfnHash ex_d4 = Some dummy_hahser" "capacity ex_d4 = 31" "size_ht ex_d4 = 2"
  by (simp_all add: ex_d1_def ex_d2_def ex_d3_def ex_d4_def appended_hash_fields removed_fields
      ex_dummy_fields)

lemma ex_ins1:
  "ht_insert (Some ex_dummy) (Some key_Test) 5 1 5 HT_STATIC ex_heap = Inr (HT_OK, Some ex_d1, ex_h1)
   \<and> ht_rep [ex_e1] ex_d1 \<and> alloc_fails ex_h1 = []"
proof -
  have nf: "(1::ht_hash_t) \<notin> hash ` set []" by simp
  have ng: "\<not> needs_growth ex_dummy" by (simp add: needs_growth_nat ex_dummy_fields)
  have c: "capacity ex_dummy \<noteq> HT_NO_SIZE" by (simp add: ex_dummy_fields HT_NO_SIZE_def)
  have a: "alloc_fails ex_heap = []" by (simp add: ex_heap_def)
  have k: "unat (5::ht_size_t) \<le> length key_Test" by (simp add: key_Test_def)
  have p: "(1::nat) \<noteq> NULL" and pol: "HT_STATIC \<noteq> HT_TRANSIENT" by simp_all
  from ht_insert_stored [OF ex_dummy_rep ex_dummy_fields(1) dummy_hash(1) nf ng c p pol a k, of 5]
  show ?thesis by (simp add: ex_d1_def ex_e1_def ex_h1_def)
qed

lemma ex_ins2:
  "ht_insert (Some ex_d1) (Some key_Test2) 6 1 5 HT_STATIC ex_h1 = Inr (HT_OK, Some ex_d2, ex_h2)
   \<and> ht_rep [ex_e1, ex_e2] ex_d2 \<and> alloc_fails ex_h2 = []"
proof -
  have r: "ht_rep [ex_e1] ex_d1" and a: "alloc_fails ex_h1 = []" using ex_ins1 by simp_all
  have nf: "(32::ht_hash_t) \<notin> hash ` set [ex_e1]" by (simp add: ex_e_hash)
  have ng: "\<not> needs_growth ex_d1" by (simp add: needs_growth_nat ex_d_fields)
  have c: "capacity ex_d1 \<noteq> HT_NO_SIZE" by (simp add: ex_d_fields HT_NO_SIZE_def)
  have k: "unat (6::ht_size_t) \<le> length key_Test2" by (simp add: key_Test2_def)
  have p: "(1::nat) \<noteq> NULL" and pol: "HT_STATIC \<noteq> HT_TRANSIENT" by simp_all
  from ht_insert_stored [OF r ex_d_fields(1) dummy_hash(2) nf ng c p pol a k, of 5]
  show ?thesis by (simp add: ex_d2_def ex_e2_def ex_h2_def)
qed

lemma ex_ins3:
  "ht_insert (Some ex_d2) (Some key_Test3) 6 1 5 HT_STATIC ex_h2 = Inr (HT_OK, Some ex_d3, ex_h3)
   \<and> ht_rep [ex_e1, ex_e2, ex_e3] ex_d3 \<and> alloc_fails ex_h3 = []"
proof -
  have r: "ht_rep [ex_e1, ex_e2] ex_d2" and a: "alloc_fails ex_h2 = []" using ex_ins2 by simp_all
  have nf: "(63::ht_hash_t) \<notin> hash ` set [ex_e1, ex_e2]" by (simp add: ex_e_hash)
  have ng: "\<not> needs_growth ex_d2" by (simp add: needs_growth_nat ex_d_fields)
  have c: "capacity ex_d2 \<noteq> HT_NO_SIZE" by (simp add: ex_d_fields HT_NO_SIZE_def)
  have k: "unat (6::ht_size_t) \<le> length key_Test3" by (simp add: key_Test3_def)
  have p: "(1::nat) \<noteq> NULL" and pol: "HT_STATIC \<noteq> HT_TRANSIENT" by simp_all
  from ht_insert_stored [OF r ex_d_fields(4) dummy_hash(3) nf ng c p pol a k, of 5]
  show ?thesis by (simp add: ex_d3_def ex_e3_def ex_h3_def)
qed

lemma ex_d3_chain: "ppEntries ex_d3 ! 1 = [ex_e1, ex_e2, ex_e3]"
proof -
  have "ht_rep [ex_e1, ex_e2, ex_e3] ex_d3" using ex_ins3 by simp
  then have "ppEntries ex_d3 = rebucket 31 [ex_e1, ex_e2, ex_e3]"
    by (simp add: ht_rep_def ex_d_fields)
  then show ?thesis by (simp add: nth_rebucket ex_e_hash)
qed

lemma ex_rem:
  "ht_remove (Some ex_d3) (Some key_Test2) n ex_h3 = Inr (HT_OK, Some ex_d4, ex_h4)
   \<and> ht_rep [ex_e1, ex_e3] ex_d4"
proof -
  have r: "ht_rep [ex_e1, ex_e2, ex_e3] ex_d3" using ex_ins3 by simp
  have ch: "call_hash (pfnHash ex_d3) key_Test2 n = Inr 32"
    by (simp add: call_hash_def ex_d_fields dummy_hash)
  have c: "ppEntries ex_d3 ! (unat (32::ht_hash_t) mod unat (capacity ex_d3)) = [ex_e1] @ ex_e2 # [ex_e3]"
    using ex_d3_chain by (simp add: ex_d_fields)
  have ab: "[ex_e1] = [] \<or> [ex_e3] \<noteq> []" by simp
  from ht_remove_ok [OF rep_wf [OF r] ch c ex_e_hash(2) ab, of ex_h3]
       rep_removed [OF r, of 32]
  show ?thesis by (simp add: ex_d4_def ex_h4_def ex_e_hash)
qed

lemma ex_run:
  "run ex_ops (Some ex_d1, ex_h1) = Inr (Some ex_d4, ex_h4)"
  using ex_ins2 ex_ins3 ex_rem [of 5] by (simp add: ex_ops_def)


subsection \<open>Two keys with one hash\<close>



lemma ex_table_rep: "ht_rep [] ex_table"
  by (simp add: ht_rep_def ht_geom_def ex_table_def rebucket_Nil)





lemma ex_dummy_wf: "ht_wf ex_dummy"
  by (rule rep_wf [OF ex_dummy_rep])


lemma ex_d4_entries: "set (concat (ppEntries ex_d4)) = {ex_e1, ex_e3}"
proof -
  have "ht_rep [ex_e1, ex_e3] ex_d4" using ex_rem by simp
  from rep_set [OF this] show ?thesis by simp
qed


lemma rep_length: "ht_rep es t \<Longrightarrow> length (concat (ppEntries t)) = length es"
proof -
  assume r: "ht_rep es t"
  have "distinct (map hash (concat (ppEntries t)))"
    using rep_wf [OF r] by (simp add: ht_wf_def)
  then have d1: "distinct (concat (ppEntries t))" by (simp only: distinct_map)
  have "distinct (map hash es)" using r by (simp add: ht_rep_def)
  then have d2: "distinct es" by (simp only: distinct_map)
  from distinct_card [OF d1] distinct_card [OF d2] rep_set [OF r] show ?thesis by metis
qed

lemma ex_table1_rep: "ht_rep [ex_entry] ex_table1"
proof -
  have n: "hash ex_entry \<notin> hash ` set []" by simp
  show ?thesis unfolding ex_table1_def using rep_appended [OF ex_table_rep n] by simp
qed

lemma ex_table1_sized:
  "unat (size_ht ex_table1) = length (concat (ppEntries ex_table1))"
  "concat (ppEntries ex_table1) \<noteq> []"
proof -
  have l: "length (concat (ppEntries ex_table1)) = 1"
    using rep_length [OF ex_table1_rep] by simp
  show "unat (size_ht ex_table1) = length (concat (ppEntries ex_table1))"
    by (simp only: l) (simp add: ex_table1_def appended_hash_fields ex_table_def)
  show "concat (ppEntries ex_table1) \<noteq> []" using l by (metis length_0_conv zero_neq_one)
qed

lemma ex_table_sized:
  "unat (size_ht ex_table) = length (concat (ppEntries ex_table))"
  "concat (ppEntries ex_table) = []"
  by (simp_all add: ex_table_def)

subsection \<open>Allocation in ht\_insert\<close>

lemma malloc_ok:
  "alloc_fails h = [] \<or> (\<exists>fs. alloc_fails h = False # fs) \<Longrightarrow>
   malloc b h = (Suc (brk h), h\<lparr>alloc_fails := tl (alloc_fails h),
                                 blocks := (blocks h)(Suc (brk h) \<mapsto> b), brk := Suc (brk h)\<rparr>)"
  by (auto simp: malloc_def)

lemma malloc_fail: "alloc_fails h = True # fs \<Longrightarrow> malloc b h = (NULL, h\<lparr>alloc_fails := fs\<rparr>)"
  by (simp add: malloc_def)

lemma double_not_no_size: "(c::ht_size_t) * 2 \<noteq> HT_NO_SIZE"
proof
  assume "c * 2 = HT_NO_SIZE"
  then have "even (- 1 :: ht_size_t)" unfolding HT_NO_SIZE_def by (metis dvd_triv_right)
  then show False by simp
qed

lemma grow_chain_total:
  "length arr = unat cap \<Longrightarrow> cap \<noteq> 0 \<Longrightarrow> cap \<noteq> HT_NO_SIZE \<Longrightarrow>
   \<exists>arr'. grow_chain es arr cap = Inr arr' \<and> length arr' = unat cap"
proof (induction es arbitrary: arr)
  case Nil
  then show ?case by simp
next
  case (Cons e es)
  let ?arr1 = "arr[unat (hash e) mod unat cap := arr ! (unat (hash e) mod unat cap) @ [e]]"
  have p: "place_item arr cap e = Inr ?arr1" by (rule place_item_eq [OF Cons.prems(2,3,1)])
  have "length ?arr1 = unat cap" using Cons.prems(1) by simp
  from Cons.IH [OF this Cons.prems(2,3)] p show ?case by simp
qed

lemma grow_buckets_total:
  "length arr = unat cap \<Longrightarrow> cap \<noteq> 0 \<Longrightarrow> cap \<noteq> HT_NO_SIZE \<Longrightarrow>
   length (ppEntries t) = unat (capacity t) \<Longrightarrow>
   \<exists>arr'. grow_buckets t i arr cap = Inr arr'"
proof (induction t i arr cap rule: grow_buckets.induct)
  case (1 t i new_array new_cap)
  show ?case
  proof (cases "i < unat (capacity t)")
    case False
    then show ?thesis by (simp add: grow_buckets.simps)
  next
    case True
    then have b: "bucket_at (ppEntries t) i = Inr (ppEntries t ! i)"
      using "1.prems" by (simp add: bucket_at_def)
    from grow_chain_total [OF "1.prems"(1,2,3), of "ppEntries t ! i"] obtain arr1 where
      g1: "grow_chain (ppEntries t ! i) new_array new_cap = Inr arr1"
      and l1: "length arr1 = unat new_cap" by blast
    from "1.IH" [OF True b g1 l1 "1.prems"(2,3,4)] obtain arr' where
      "grow_buckets t (Suc i) arr1 new_cap = Inr arr'" by blast
    with True b g1 show ?thesis by (subst grow_buckets.simps) simp
  qed
qed

lemma grow_table_ok:
  assumes g: "ht_geom t" and c: "capacity t * 2 \<noteq> 0"
      and a: "alloc_fails h = [] \<or> (\<exists>fs. alloc_fails h = False # fs)"
  shows "grow_table t h = Inr (HT_OK, grown t (Suc (brk h)), grown_heap t h)"
proof -
  have len: "length (ppEntries t) = unat (capacity t)" using g by (simp add: ht_geom_def)
  have l0: "length (replicate (unat (capacity t * 2)) ([]::ht_entry list)) = unat (capacity t * 2)"
    by simp
  from grow_buckets_total [OF l0 c double_not_no_size len, of 0] obtain arr where
    gb: "grow_buckets t 0 (replicate (unat (capacity t * 2)) []) (capacity t * 2) = Inr arr"
    by blast
  have eq: "grow_table t h =
     Inr (HT_OK, t\<lparr>capacity := capacity t * 2, ppEntries := arr, ppEntries_at := Suc (brk h)\<rparr>,
          grown_heap t h)"
    by (simp add: grow_table_def malloc_ok [OF a] HT_GROW_FACT_def gb free_def grown_heap_def)
  from grow_table_D [OF eq len] show ?thesis using eq by (simp add: grown_def ht_codes)
qed

lemma grow_table_fail:
  "alloc_fails h = True # fs \<Longrightarrow> grow_table t h = Inr (HT_ALLOC_ERR, t, h\<lparr>alloc_fails := fs\<rparr>)"
  by (simp add: grow_table_def malloc_fail)


lemma insert_entry_fail:
  assumes fl: "True \<in> set (take (if pol = HT_TRANSIENT then 1 else 2) (alloc_fails h))"
      and fr: "dom (blocks h) \<subseteq> {..brk h}"
  shows "\<exists>h'. insert_entry t key ksz p d pol hv h = Inr (HT_ALLOC_ERR, Some t, h')
            \<and> blocks h' = blocks h"
proof (cases "alloc_fails h")
  case Nil
  with fl show ?thesis by simp
next
  case (Cons f1 fs)
  show ?thesis
  proof (cases f1)
    case True
    with Cons show ?thesis by (simp add: insert_entry_def malloc_fail)
  next
    case False
    with fl Cons have pol: "pol \<noteq> HT_TRANSIENT" and "True \<in> set (take 1 fs)"
      by (auto split: if_splits)
    then obtain fs' where fs: "fs = True # fs'" by (cases fs) auto
    have a1: "alloc_fails h = [] \<or> (\<exists>fs. alloc_fails h = False # fs)" using Cons False by simp
    have n: "blocks h (Suc (brk h)) = None" using fr by (auto simp: domIff subset_iff)
    have "((blocks h)(Suc (brk h) \<mapsto> EntryStruct))(Suc (brk h) := None) = blocks h"
      using n by (simp add: fun_upd_idem)
    then show ?thesis
      using pol Cons False fs
      by (simp add: insert_entry_def malloc_ok [OF a1] malloc_fail free_def)
  qed
qed

lemma ht_get_item_same:
  assumes w: "ht_wf t" and w': "ht_wf t'" and f: "pfnHash t' = pfnHash t"
      and s: "set (concat (ppEntries t')) = set (concat (ppEntries t))"
  shows "ht_get_item (Some t') (Some k) n (Some a) (Some b) =
         ht_get_item (Some t) (Some k) n (Some a) (Some b)"
proof (cases "call_hash (pfnHash t) k n")
  case (Inl x)
  then show ?thesis using f by (simp add: ht_get_item_def)
next
  case (Inr hv)
  then have c': "call_hash (pfnHash t') k n = Inr hv" using f by simp
  have "find_entry t' hv = find_entry t hv"
  proof (cases "find_entry t hv")
    case None
    then have "hv \<notin> hash ` set (concat (ppEntries t'))"
      using find_entry_None_iff [OF w, of hv] s by simp
    then show ?thesis using find_entry_None_iff [OF w', of hv] None by simp
  next
    case (Some e)
    then have "e \<in> set (concat (ppEntries t')) \<and> hash e = hv"
      using find_entry_Some_iff [OF w, of hv e] s by simp
    then show ?thesis using find_entry_Some_iff [OF w', of hv e] Some by simp
  qed
  then show ?thesis
    using ht_get_item_eq [OF wf_geom [OF w] Inr, of a b]
          ht_get_item_eq [OF wf_geom [OF w'] c', of a b] by simp
qed

lemma cap_double_nonzero:
  "capacity t \<noteq> 0 \<Longrightarrow> unat (capacity t) * 2 < 2 ^ 32 \<Longrightarrow> capacity t * 2 \<noteq> 0"
  using unat_double [of "capacity t"] by (metis mult_eq_0_iff unat_eq_0 zero_neq_numeral)

lemma grown_heap_fields:
  "alloc_fails (grown_heap t h) = tl (alloc_fails h)" "brk (grown_heap t h) = Suc (brk h)"
  by (simp_all add: grown_heap_def)

lemma grown_heap_dom:
  "dom (blocks h) \<subseteq> {..brk h} \<Longrightarrow> dom (blocks (grown_heap t h)) \<subseteq> {..brk (grown_heap t h)}"
  by (auto simp: grown_heap_def split: if_splits)


subsection \<open>A table at the load limit\<close>

lemma ex_es21_hashes: "map hash ex_es21 = map of_nat [1..<22]"
proof -
  have "map hash ex_es21 = map (\<lambda>i. of_nat (i + 1)) [0..<21]"
    by (simp add: ex_es21_def comp_def)
  also have "\<dots> = map of_nat (map Suc [0..<21])" by (simp add: comp_def)
  also have "map Suc [0..<21] = [1..<22]" by (simp only: map_Suc_upt) simp
  finally show ?thesis .
qed

lemma ex_es21_distinct: "distinct (map hash ex_es21)"
proof -
  have "inj_on (of_nat :: nat \<Rightarrow> ht_hash_t) (set [1..<22])"
  proof (rule inj_onI)
    fix x y :: nat
    assume x: "x \<in> set [1..<22]" and y: "y \<in> set [1..<22]"
       and e: "(of_nat x :: ht_hash_t) = of_nat y"
    have ux: "unat (of_nat x :: ht_hash_t) = x" using x by (simp add: unat_of_nat)
    have uy: "unat (of_nat y :: ht_hash_t) = y" using y by (simp add: unat_of_nat)
    from e have "unat (of_nat x :: ht_hash_t) = unat (of_nat y :: ht_hash_t)" by (rule arg_cong)
    then show "x = y" by (simp only: ux uy)
  qed
  then show ?thesis by (simp only: ex_es21_hashes distinct_map) simp
qed

lemma ex_full_rep: "ht_rep ex_es21 ex_full"
  by (simp add: ht_rep_def ht_geom_def ex_full_def length_rebucket ex_es21_distinct)

lemma ex_full_wf: "ht_wf ex_full"
  by (rule rep_wf [OF ex_full_rep])

lemma ex_full_fields:
  "pfnHash ex_full = Some default_hash_impl" "capacity ex_full = 31" "size_ht ex_full = 21"
  by (simp_all add: ex_full_def)

lemma ex_full_grows: "needs_growth ex_full"
  by (simp add: needs_growth_nat ex_full_fields)

lemma hash_byte: "default_hash_impl [b] 1 = Inr (ucast b)"
  by (simp add: default_hash_impl_def HT_NO_SIZE_def sdbm_loop.simps)

lemma ex_22_new: "(22::ht_hash_t) \<notin> hash ` set ex_es21"
proof -
  have "hash ` set ex_es21 = set (map hash ex_es21)" by simp
  also have "\<dots> = of_nat ` {1..<22}" by (simp only: ex_es21_hashes) simp
  finally have s: "hash ` set ex_es21 = of_nat ` {1..<22}" .
  show ?thesis
  proof
    assume "(22::ht_hash_t) \<in> hash ` set ex_es21"
    with s obtain n :: nat where n: "n \<in> {1..<22}" and e: "(22::ht_hash_t) = of_nat n" by auto
    have un: "unat (of_nat n :: ht_hash_t) = n" using n by (simp add: unat_of_nat)
    have u22: "unat (22::ht_hash_t) = 22" by simp
    from e have "unat (22::ht_hash_t) = unat (of_nat n :: ht_hash_t)" by (rule arg_cong)
    then have "n = 22" by (simp only: un u22)
    with n show False by simp
  qed
qed

lemma ex_1_in: "\<lparr>entry_at = 4, pKey = 5, key_size = 1, pData = 1, data_size = 5,
                 pfnFree = HT_STATIC, hash = 1\<rparr> \<in> set ex_es21"
proof -
  have "(0::nat) \<in> set [0..<21]" by simp
  then have "(\<lambda>i. \<lparr>entry_at = 2 * i + 4, pKey = 2 * i + 5, key_size = 1, pData = 1,
                        data_size = 5, pfnFree = HT_STATIC, hash = of_nat (i + 1)\<rparr>) 0 \<in> set ex_es21"
    unfolding ex_es21_def set_map by (rule imageI)
  then show ?thesis by simp
qed

lemma ex_heap_full_fields:
  "brk (ex_heap_full fs) = 45" "alloc_fails (ex_heap_full fs) = fs"
  "dom (blocks (ex_heap_full fs)) \<subseteq> {..brk (ex_heap_full fs)}"
  by (auto simp: ex_heap_full_def split: if_splits)


lemma ex_get_1:
  "ht_get_item (Some ex_full) (Some [1]) 1 (Some 0) (Some 0) = Inr (HT_OK, Some 1, Some 5)"
proof -
  have ch: "call_hash (pfnHash ex_full) [1] 1 = Inr 1"
    using hash_byte [of 1] by (simp add: call_hash_def ex_full_fields)
  have m: "\<lparr>entry_at = 4, pKey = 5, key_size = 1, pData = 1, data_size = 5,
            pfnFree = HT_STATIC, hash = 1\<rparr> \<in> set (concat (ppEntries ex_full))"
    using ex_1_in by (simp only: rep_set [OF ex_full_rep])
  from ht_get_item_found [OF ex_full_wf ch m, of 0 0] show ?thesis by simp
qed

lemma ex_transient_fault:
  "ht_insert (Some ex_table) (Some key_Test) 5 1 5 HT_TRANSIENT
     (ex_heap\<lparr>alloc_fails := [False, False, True]\<rparr>) = Inl NullDeref"
proof -
  have ng: "\<not> needs_growth ex_table" by (simp add: needs_growth_nat ex_table_def)
  have pf: "pfnHash ex_table = Some default_hash_impl" by (simp add: ex_table_def)
  have l: "length key_Test = 5" by (simp add: key_Test_def)
  show ?thesis
    using ng pf hash_Test ex_find_none l
    by (simp add: ht_insert_def hash_exists_eq [OF ex_table_geom] insert_entry_def malloc_def
        memcpy_def bytes_at_def ex_heap_def Let_def)
qed


lemma insert_entry_refused:
  "alloc_fails h = True # fs \<Longrightarrow>
   insert_entry t key ksz p d pol hv h = Inr (HT_ALLOC_ERR, Some t, h\<lparr>alloc_fails := fs\<rparr>)"
  by (simp add: insert_entry_def malloc_fail)

subsection \<open>The hash function in use\<close>

lemma step_hash_func:
  assumes ap: "apply_op op (Some t) h = Inr (rc, Some t', h')"
      and hd: "ht_holds es t" and b: "length es < 1000000000"
  shows "pfnHash t' = set_by op rc (pfnHash t)"
proof (cases op)
  case (Insert k n p d pol)
  with ap have "ht_insert (Some t) k n p d pol h = Inr (rc, Some t', h')" by simp
  from insert_holds [OF this hd b] Insert show ?thesis by auto
next
  case (Remove k n)
  with ap have "ht_remove (Some t) k n h = Inr (rc, Some t', h')" by simp
  from remove_holds [OF this hd] Remove show ?thesis by auto
next
  case (SetHashFunc pFn)
  with ap have sh: "ht_set_hash_func (Some t) pFn = (rc, Some t')"
    by (auto split: prod.splits)
  show ?thesis
  proof (cases pFn)
    case None
    with sh SetHashFunc show ?thesis by (auto simp: ht_set_hash_func_def)
  next
    case (Some g)
    with sh SetHashFunc show ?thesis
      by (auto simp: ht_set_hash_func_def ht_codes split: if_splits)
  qed
qed

lemma run_hash_func:
  assumes "run ops (Some t, h) = Inr (Some t2, h2)" and "ht_holds es t"
      and "length es + length ops \<le> 1000000000"
  shows "pfnHash t2 = hash_func_after ops (pfnHash t) (Some t, h)"
  using assms
proof (induction ops arbitrary: t h es)
  case Nil
  then show ?case by simp
next
  case (Cons op ops)
  from Cons.prems(1) obtain rc pHt1 h1 where
    ap: "apply_op op (Some t) h = Inr (rc, pHt1, h1)" and
    rn: "run ops (pHt1, h1) = Inr (Some t2, h2)"
    by (auto split: sum.splits)
  have b: "length es < 1000000000" using Cons.prems(3) by simp
  from step_holds [OF ap Cons.prems(2) b] obtain t1 es1 where
    t1: "pHt1 = Some t1" and h1: "ht_holds es1 t1"
    and lg: "map hash es1 = logged op (Some t) rc (map hash es)"
    and ln: "length es1 \<le> Suc (length es)"
    by blast
  have f: "pfnHash t1 = set_by op rc (pfnHash t)"
    by (rule step_hash_func [OF ap [unfolded t1] Cons.prems(2) b])
  have b1: "length es1 + length ops \<le> 1000000000" using ln Cons.prems(3) by simp
  from Cons.IH [OF rn [unfolded t1] h1 b1] ap t1 f show ?case by simp
qed

lemma set_by_other: "(\<forall>g. op \<noteq> SetHashFunc g) \<Longrightarrow> set_by op rc cur = cur"
  by (cases op) auto

lemma hash_func_after_same:
  "(\<forall>g. SetHashFunc g \<notin> set ops) \<Longrightarrow> hash_func_after ops cur s = cur"
proof (induction ops arbitrary: s)
  case Nil
  then show ?case by simp
next
  case (Cons op ops)
  obtain pHt h where s: "s = (pHt, h)" by (cases s)
  from Cons.prems have o: "\<forall>g. op \<noteq> SetHashFunc g" and r: "\<forall>g. SetHashFunc g \<notin> set ops"
    by auto
  show ?case unfolding s using Cons.IH [OF r] set_by_other [OF o]
    by (auto split: sum.splits)
qed

lemma empty_set_hash_holds:
  assumes w: "ht_wf t" and s: "unat (size_ht t) = length (concat (ppEntries t))"
      and e: "concat (ppEntries t) = []"
  shows "ht_set_hash_func (Some t) (Some fn) = (HT_OK, Some (t\<lparr>pfnHash := Some fn\<rparr>))"
    and "ht_holds [] (t\<lparr>pfnHash := Some fn\<rparr>)"
proof -
  have z: "size_ht t = 0" using s e by (simp add: unat_eq_0)
  then show 1: "ht_set_hash_func (Some t) (Some fn) = (HT_OK, Some (t\<lparr>pfnHash := Some fn\<rparr>))"
    by (simp add: ht_set_hash_func_def)
  have "ht_holds [] t" using wf_holds [OF w s] e by simp
  from set_hash_holds [OF 1 this] show "ht_holds [] (t\<lparr>pfnHash := Some fn\<rparr>)" by simp
qed

lemma free_item_alloc_fails: "alloc_fails (free_item e h) = alloc_fails h"
  by (simp add: free_item_def free_def Let_def split: ht_free_func_t.splits)

lemma ex_ins5:
  "ht_insert (Some ex_d4) (Some key_Test2) 6 1 5 HT_STATIC ex_h4 = Inr (HT_OK, Some ex_d5, ex_h5)
   \<and> ht_rep [ex_e1, ex_e3, ex_e5] ex_d5"
proof -
  have r: "ht_rep [ex_e1, ex_e3] ex_d4" using ex_rem by simp
  have a3: "alloc_fails ex_h3 = []" using ex_ins3 by simp
  have a: "alloc_fails ex_h4 = []" by (simp add: ex_h4_def free_item_alloc_fails a3)
  have nf: "(32::ht_hash_t) \<notin> hash ` set [ex_e1, ex_e3]" by (simp add: ex_e_hash)
  have ng: "\<not> needs_growth ex_d4" by (simp add: needs_growth_nat ex_d_fields)
  have c: "capacity ex_d4 \<noteq> HT_NO_SIZE" by (simp add: ex_d_fields HT_NO_SIZE_def)
  have k: "unat (6::ht_size_t) \<le> length key_Test2" by (simp add: key_Test2_def)
  have p: "(1::nat) \<noteq> NULL" and pol: "HT_STATIC \<noteq> HT_TRANSIENT" by simp_all
  from ht_insert_stored [OF r ex_d_fields(10) dummy_hash(2) nf ng c p pol a k, of 5]
  show ?thesis by (simp add: ex_d5_def ex_e5_def ex_h5_def)
qed

section \<open>The claims\<close>






text \<open>
  C3 as it stands does not hold. The table \<open>ex_full\<close> holds 21 entries in 31 buckets, so
  \<open>ht_insert\<close> grows it first; when the bucket array is allocated and the entry struct is
  not, the call returns \<open>HT_ALLOC_ERR\<close> and leaves the grown table, whose capacity is 62
  and not 31: \<open>grow_table\<close> has released the old array, nothing undoes the growth. And when
  the allocation of the value copy of an \<open>HT_TRANSIENT\<close> insert fails, the code tests
  \<open>new_entry\<close> where it means \<open>new_entry->pData\<close> and copies the value to \<open>NULL\<close>: the
  call faults and returns nothing.
\<close>

theorem alloc_failure_counterexample:
  "capacity ex_full = 31
   \<and> ht_insert (Some ex_full) (Some [22]) 1 1 5 HT_STATIC (ex_heap_full [False, True]) =
       Inr (HT_ALLOC_ERR, Some (grown ex_full 46),
            (grown_heap ex_full (ex_heap_full [False, True]))\<lparr>alloc_fails := []\<rparr>)
   \<and> capacity (grown ex_full 46) = 62
   \<and> ht_insert (Some ex_table) (Some key_Test) 5 1 5 HT_TRANSIENT
       (ex_heap\<lparr>alloc_fails := [False, False, True]\<rparr>) = Inl NullDeref"
proof -
  let ?h = "ex_heap_full [False, True]"
  have g: "ht_geom ex_full" by (rule wf_geom [OF ex_full_wf])
  have c2: "capacity ex_full * 2 \<noteq> 0" by (simp add: ex_full_fields)
  have a1: "alloc_fails ?h = [] \<or> (\<exists>fs. alloc_fails ?h = False # fs)"
    by (simp add: ex_heap_full_fields)
  have gt: "grow_table ex_full ?h = Inr (HT_OK, grown ex_full 46, grown_heap ex_full ?h)"
    using grow_table_ok [OF g c2 a1] by (simp add: ex_heap_full_fields)
  have fl: "alloc_fails (grown_heap ex_full ?h) = True # []"
    by (simp add: grown_heap_fields ex_heap_full_fields)
  note ie = insert_entry_refused [OF fl, of "grown ex_full 46" "[22]" 1 1 5 HT_STATIC 22]
  have hv: "default_hash_impl [22] 1 = Inr 22" using hash_byte [of 22] by simp
  have f: "find_entry ex_full 22 = None" using ex_22_new by (simp add: rep_find_None [OF ex_full_rep])
  have "ht_insert (Some ex_full) (Some [22]) 1 1 5 HT_STATIC ?h =
          Inr (HT_ALLOC_ERR, Some (grown ex_full 46), (grown_heap ex_full ?h)\<lparr>alloc_fails := []\<rparr>)"
    using hv f ex_full_grows gt ie
    by (simp add: ht_insert_def hash_exists_eq [OF g] ex_full_fields)
  then show ?thesis using ex_transient_fault by (simp add: ex_full_fields grown_fields)
qed

text \<open>
  C3 (as amended). Take a well-formed table whose capacity can be doubled in an
  \<open>ht_size_t\<close>, a heap whose live blocks are at addresses up to \<open>brk\<close>, and a call of
  \<open>ht_insert\<close> with a value pointer that is not \<open>NULL\<close> and a key whose hash is not in
  the table, in which the allocator refuses the bucket array of \<open>grow_table\<close>, the entry
  struct or, when the policy is not \<open>HT_TRANSIENT\<close>, the key copy. Then the call returns
  \<open>HT_ALLOC_ERR\<close>; the size, the hash function and the entries of the table are as before,
  and \<open>ht_get_item\<close> returns for every key what it returned before; the entry struct, if
  it was allocated, is released. If no growth was due or the bucket array was refused, the
  table and the live blocks are as before the call; if the bucket array was allocated, the
  table is the grown one, with twice the capacity, and the heap holds the new bucket array
  instead of the old one.
\<close>

theorem alloc_failure_keeps_entries:
  assumes w: "ht_wf t" and p: "p \<noteq> NULL"
      and ch: "call_hash (pfnHash t) key ksz = Inr hv"
      and nf: "hv \<notin> hash ` set (concat (ppEntries t))"
      and ov: "unat (capacity t) * 2 < 2 ^ 32"
      and fr: "dom (blocks h) \<subseteq> {..brk h}"
      and fl: "True \<in> set (take ((if needs_growth t then 1 else 0)
                                  + (if pol = HT_TRANSIENT then 1 else 2)) (alloc_fails h))"
  shows "\<exists>t' h'. ht_insert (Some t) (Some key) ksz p d pol h = Inr (HT_ALLOC_ERR, Some t', h')
           \<and> size_ht t' = size_ht t \<and> pfnHash t' = pfnHash t
           \<and> set (concat (ppEntries t')) = set (concat (ppEntries t))
           \<and> (\<forall>k n a b. ht_get_item (Some t') (Some k) n (Some a) (Some b) =
                         ht_get_item (Some t) (Some k) n (Some a) (Some b))
           \<and> (if needs_growth t \<and> \<not> hd (alloc_fails h)
              then t' = grown t (Suc (brk h)) \<and> blocks h' = blocks (grown_heap t h)
              else t' = t \<and> blocks h' = blocks h)"
proof -
  have g: "ht_geom t" by (rule wf_geom [OF w])
  have c0: "capacity t \<noteq> 0" using g by (simp add: ht_geom_def)
  have c2: "capacity t * 2 \<noteq> 0" by (rule cap_double_nonzero [OF c0 ov])
  from ch obtain fn where fn: "pfnHash t = Some fn" "fn key ksz = Inr hv"
    by (auto simp: call_hash_def split: option.splits)
  have f: "find_entry t hv = None" using nf by (simp add: find_entry_None_iff [OF w])
  have same: "\<forall>k n a b. ht_get_item (Some t) (Some k) n (Some a) (Some b) =
                         ht_get_item (Some t) (Some k) n (Some a) (Some b)" by simp
  show ?thesis
  proof (cases "needs_growth t")
    case False
    with fl have fl': "True \<in> set (take (if pol = HT_TRANSIENT then 1 else 2) (alloc_fails h))"
      by simp
    from insert_entry_fail [OF fl' fr, of t key ksz p d hv] obtain h' where
      ie: "insert_entry t key ksz p d pol hv h = Inr (HT_ALLOC_ERR, Some t, h')"
      and b: "blocks h' = blocks h" by blast
    have "ht_insert (Some t) (Some key) ksz p d pol h = Inr (HT_ALLOC_ERR, Some t, h')"
      using p fn f False ie by (simp add: ht_insert_def hash_exists_eq [OF g])
    with b False show ?thesis by simp
  next
    case True
    from fl True obtain f1 fs where fs: "alloc_fails h = f1 # fs" by (cases "alloc_fails h") auto
    show ?thesis
    proof (cases f1)
      case True
      note f1 = this
      have gt: "grow_table t h = Inr (HT_ALLOC_ERR, t, h\<lparr>alloc_fails := fs\<rparr>)"
        using fs f1 by (simp add: grow_table_fail)
      have "ht_insert (Some t) (Some key) ksz p d pol h =
              Inr (HT_ALLOC_ERR, Some t, h\<lparr>alloc_fails := fs\<rparr>)"
        using p fn f \<open>needs_growth t\<close> gt
        by (simp add: ht_insert_def hash_exists_eq [OF g] ht_codes)
      then show ?thesis using fs f1 by simp
    next
      case False
      note f1 = this
      let ?g = "grown t (Suc (brk h))"
      let ?h = "grown_heap t h"
      have a1: "alloc_fails h = [] \<or> (\<exists>fs. alloc_fails h = False # fs)" using fs f1 by simp
      have gt: "grow_table t h = Inr (HT_OK, ?g, ?h)" by (rule grow_table_ok [OF g c2 a1])
      have fl': "True \<in> set (take (if pol = HT_TRANSIENT then 1 else 2) (alloc_fails ?h))"
        using fl \<open>needs_growth t\<close> fs f1 by (simp add: grown_heap_fields split: if_splits)
      have fr': "dom (blocks ?h) \<subseteq> {..brk ?h}" by (rule grown_heap_dom [OF fr])
      from insert_entry_fail [OF fl' fr', of ?g key ksz p d hv] obtain h' where
        ie: "insert_entry ?g key ksz p d pol hv ?h = Inr (HT_ALLOC_ERR, Some ?g, h')"
        and b: "blocks h' = blocks ?h" by blast
      have ins: "ht_insert (Some t) (Some key) ksz p d pol h = Inr (HT_ALLOC_ERR, Some ?g, h')"
        using p fn f \<open>needs_growth t\<close> gt ie
        by (simp add: ht_insert_def hash_exists_eq [OF g])
      have wg: "ht_wf ?g" by (rule wf_grown [OF w c2])
      have sg: "set (concat (ppEntries ?g)) = set (concat (ppEntries t))"
        by (rule entries_grown [OF c2])
      have fg: "pfnHash ?g = pfnHash t" by (simp add: grown_fields)
      have gg: "\<forall>k n a b. ht_get_item (Some ?g) (Some k) n (Some a) (Some b) =
                         ht_get_item (Some t) (Some k) n (Some a) (Some b)"
        using ht_get_item_same [OF w wg fg sg] by blast
      have "size_ht ?g = size_ht t" by (simp add: grown_fields)
      with ins b sg fg gg \<open>needs_growth t\<close> fs f1 show ?thesis
        by (intro exI [of _ ?g] exI [of _ h']) (simp del: set_concat)
    qed
  qed
qed

theorem alloc_failure_keeps_entries_witness:
  "ht_wf ex_full \<and> (1::nat) \<noteq> NULL
   \<and> call_hash (pfnHash ex_full) [22] 1 = Inr 22
   \<and> 22 \<notin> hash ` set (concat (ppEntries ex_full))
   \<and> unat (capacity ex_full) * 2 < 2 ^ 32
   \<and> dom (blocks (ex_heap_full [False, True])) \<subseteq> {..brk (ex_heap_full [False, True])}
   \<and> needs_growth ex_full
   \<and> True \<in> set (take 3 (alloc_fails (ex_heap_full [False, True])))
   \<and> ht_insert (Some ex_full) (Some [22]) 1 1 5 HT_STATIC (ex_heap_full [False, True]) =
       Inr (HT_ALLOC_ERR, Some (grown ex_full 46),
            (grown_heap ex_full (ex_heap_full [False, True]))\<lparr>alloc_fails := []\<rparr>)
   \<and> size_ht (grown ex_full 46) = 21
   \<and> ht_get_item (Some (grown ex_full 46)) (Some [1]) 1 (Some 0) (Some 0) =
       Inr (HT_OK, Some 1, Some 5)"
proof -
  let ?h = "ex_heap_full [False, True]"
  have p: "(1::nat) \<noteq> NULL" by simp
  have ch: "call_hash (pfnHash ex_full) [22] 1 = Inr 22"
    using hash_byte [of 22] by (simp add: call_hash_def ex_full_fields)
  have nf: "22 \<notin> hash ` set (concat (ppEntries ex_full))"
    using ex_22_new by (simp only: rep_set [OF ex_full_rep]) simp
  have ov: "unat (capacity ex_full) * 2 < 2 ^ 32" by (simp add: ex_full_fields)
  have fr: "dom (blocks ?h) \<subseteq> {..brk ?h}" by (rule ex_heap_full_fields(3))
  have fl3: "True \<in> set (take 3 (alloc_fails ?h))" by (simp add: ex_heap_full_fields)
  have fl: "True \<in> set (take ((if needs_growth ex_full then 1 else 0)
              + (if HT_STATIC = HT_TRANSIENT then 1 else 2)) (alloc_fails ?h))"
    using ex_full_grows by (simp add: ex_heap_full_fields)
  have hd: "\<not> hd (alloc_fails ?h)" by (simp add: ex_heap_full_fields)
  have g: "ht_geom ex_full" by (rule wf_geom [OF ex_full_wf])
  have c2: "capacity ex_full * 2 \<noteq> 0" by (simp add: ex_full_fields)
  have a1: "alloc_fails ?h = [] \<or> (\<exists>fs. alloc_fails ?h = False # fs)"
    by (simp add: ex_heap_full_fields)
  have gt: "grow_table ex_full ?h = Inr (HT_OK, grown ex_full 46, grown_heap ex_full ?h)"
    using grow_table_ok [OF g c2 a1] by (simp add: ex_heap_full_fields)
  have fl1: "alloc_fails (grown_heap ex_full ?h) = True # []"
    by (simp add: grown_heap_fields ex_heap_full_fields)
  note ie = insert_entry_refused [OF fl1, of "grown ex_full 46" "[22]" 1 1 5 HT_STATIC 22]
  have hv: "default_hash_impl [22] 1 = Inr 22" using hash_byte [of 22] by simp
  have f: "find_entry ex_full 22 = None" using ex_22_new by (simp add: rep_find_None [OF ex_full_rep])
  have run: "ht_insert (Some ex_full) (Some [22]) 1 1 5 HT_STATIC ?h =
          Inr (HT_ALLOC_ERR, Some (grown ex_full 46), (grown_heap ex_full ?h)\<lparr>alloc_fails := []\<rparr>)"
    using hv f ex_full_grows gt ie
    by (simp add: ht_insert_def hash_exists_eq [OF g] ex_full_fields)
  from alloc_failure_keeps_entries [OF ex_full_wf p ch nf ov fr fl, of 5] obtain t' h' where
    ins: "ht_insert (Some ex_full) (Some [22]) 1 1 5 HT_STATIC ?h = Inr (HT_ALLOC_ERR, Some t', h')"
    and sz: "size_ht t' = size_ht ex_full"
    and gt: "\<forall>k n a b. ht_get_item (Some t') (Some k) n (Some a) (Some b) =
                         ht_get_item (Some ex_full) (Some k) n (Some a) (Some b)"
    by blast
  from ins run have t': "t' = grown ex_full 46" by simp
  from sz t' have 2: "size_ht (grown ex_full 46) = 21" by (simp add: ex_full_fields)
  from gt t' ex_get_1 have 3: "ht_get_item (Some (grown ex_full 46)) (Some [1]) 1 (Some 0) (Some 0) =
       Inr (HT_OK, Some 1, Some 5)" by simp
  from ex_full_wf p ch nf ov fr ex_full_grows fl3 run 2 3 show ?thesis by blast
qed

text \<open>
  C4 (the code does not do this). For a table that \<open>ht_init\<close> has just made, every bucket
  is empty. \<open>ht_remove\<close> of the key \<open>"Test"\<close> assigns \<open>HT_NOT_FOUND\<close> to \<open>rc\<close> and
  then, since no \<open>else\<close> follows, reads \<open>pEntry->hash\<close> through the \<open>NULL\<close> bucket
  head: the call faults and does not return \<open>HT_NOT_FOUND\<close>.
\<close>

theorem ht_remove_empty_bucket_faults:
  "ht_init False ex_heap0 = Inr (HT_OK, Some ex_table, ex_heap)
   \<and> ppEntries ex_table ! (5995370896889781038 mod 31) = []
   \<and> ht_remove (Some ex_table) (Some key_Test) 5 ex_heap = Inl NullDeref"
  using ex_init ex_remove_faults by (simp add: ex_table_def)



text \<open>
  C6. When the table holds an entry whose hash is the hash of the key, \<open>ht_insert\<close> with
  that key (and a value pointer that is not \<open>NULL\<close>) returns \<open>HT_DUPLICATE\<close>; the table
  and the heap are as before the call, so the size is unchanged, and \<open>ht_get_item\<close> still
  returns the value pointer and size stored in that entry.
\<close>

theorem ht_insert_duplicate:
  assumes "ht_wf t" and "call_hash (pfnHash t) key ksz = Inr hv"
      and "e \<in> set (concat (ppEntries t))" and "hash e = hv" and "p \<noteq> NULL"
  shows "ht_insert (Some t) (Some key) ksz p d pol h = Inr (HT_DUPLICATE, Some t, h)
       \<and> ht_get_size (Some t) = size_ht t
       \<and> ht_get_item (Some t) (Some key) ksz (Some a) (Some b) =
           Inr (HT_OK, Some (pData e), Some (data_size e))"
proof -
  have g: "ht_geom t" by (rule wf_geom [OF assms(1)])
  have f: "find_entry t hv = Some e"
    using find_entry_Some_iff [OF assms(1), of hv e] assms(3,4) by blast
  from assms(2) obtain fn where fn: "pfnHash t = Some fn" "fn key ksz = Inr hv"
    by (auto simp: call_hash_def split: option.splits)
  have "ht_insert (Some t) (Some key) ksz p d pol h = Inr (HT_DUPLICATE, Some t, h)"
    using fn f assms(5) by (simp add: ht_insert_def hash_exists_eq [OF g])
  moreover have "ht_get_item (Some t) (Some key) ksz (Some a) (Some b) =
           Inr (HT_OK, Some (pData e), Some (data_size e))"
    using ht_get_item_eq [OF g assms(2), of a b] f by simp
  ultimately show ?thesis by (simp add: ht_get_size_def)
qed

theorem ht_insert_duplicate_witness:
  "ht_insert (Some ex_table) (Some key_Test) 5 1 5 HT_STATIC ex_heap =
     Inr (HT_OK, Some ex_table1, ex_heap1)
   \<and> ht_wf ex_table1
   \<and> call_hash (pfnHash ex_table1) key_Test 5 = Inr 5995370896889781038
   \<and> ex_entry \<in> set (concat (ppEntries ex_table1))
   \<and> hash ex_entry = 5995370896889781038
   \<and> ht_insert (Some ex_table1) (Some key_Test) 5 1 5 HT_TRANSIENT ex_heap1 =
       Inr (HT_DUPLICATE, Some ex_table1, ex_heap1)
   \<and> ht_get_size (Some ex_table1) = 1
   \<and> ht_get_item (Some ex_table1) (Some key_Test) 5 (Some 0) (Some 0) =
       Inr (HT_OK, Some 1, Some 5)"
proof -
  have m: "ex_entry \<in> set (concat (ppEntries ex_table1))"
    by (simp only: ex_table1_entries) simp
  have h: "hash ex_entry = 5995370896889781038" by (simp add: ex_entry_def)
  have p: "(1::nat) \<noteq> NULL" by simp
  have s: "size_ht ex_table1 = 1" by (simp add: ex_table1_def appended_hash_fields ex_table_def)
  from ht_insert_duplicate [OF ex_table1_wf ex_table1_hash m h p, of 5 HT_TRANSIENT ex_heap1 0 0]
  show ?thesis using ex_insert ex_table1_wf ex_table1_hash m h s
    by (simp add: ex_entry_def)
qed

text \<open>
  C7. Take a well-formed table and three calls of \<open>ht_insert\<close>, one after the other,
  that all return \<open>HT_OK\<close>, for keys whose hashes are in one bucket of the table they
  leave. Then \<open>ht_remove\<close> of the second key returns \<open>HT_OK\<close> and a table whose size is
  one less; \<open>ht_get_item\<close> of the first and of the third key returns what it returned
  before the removal, which is \<open>HT_OK\<close> with the size given at the insertion (and with the
  value pointer given at the insertion, unless the policy was \<open>HT_TRANSIENT\<close>, where the
  pointer is that of the copy); \<open>ht_get_item\<close> of the second key returns
  \<open>HT_NOT_FOUND\<close>.
\<close>

theorem remove_middle_of_three:
  assumes w: "ht_wf t"
      and i1: "ht_insert (Some t) (Some k1) n1 p1 d1 f1 h = Inr (HT_OK, Some t1, h1)"
      and i2: "ht_insert (Some t1) (Some k2) n2 p2 d2 f2 h1 = Inr (HT_OK, Some t2, h2)"
      and i3: "ht_insert (Some t2) (Some k3) n3 p3 d3 f3 h2 = Inr (HT_OK, Some t3, h3)"
      and c1: "call_hash (pfnHash t) k1 n1 = Inr v1"
      and c2: "call_hash (pfnHash t) k2 n2 = Inr v2"
      and c3: "call_hash (pfnHash t) k3 n3 = Inr v3"
      and b12: "unat v1 mod unat (capacity t3) = unat v2 mod unat (capacity t3)"
      and b23: "unat v2 mod unat (capacity t3) = unat v3 mod unat (capacity t3)"
  shows "\<exists>t4 h4 q1 q3.
           ht_remove (Some t3) (Some k2) n2 h3 = Inr (HT_OK, Some t4, h4)
         \<and> size_ht t4 = size_ht t3 - 1
         \<and> ht_get_item (Some t3) (Some k1) n1 (Some a) (Some b) = Inr (HT_OK, Some q1, Some d1)
         \<and> ht_get_item (Some t4) (Some k1) n1 (Some a) (Some b) = Inr (HT_OK, Some q1, Some d1)
         \<and> (f1 \<noteq> HT_TRANSIENT \<longrightarrow> q1 = p1)
         \<and> ht_get_item (Some t3) (Some k3) n3 (Some a) (Some b) = Inr (HT_OK, Some q3, Some d3)
         \<and> ht_get_item (Some t4) (Some k3) n3 (Some a) (Some b) = Inr (HT_OK, Some q3, Some d3)
         \<and> (f3 \<noteq> HT_TRANSIENT \<longrightarrow> q3 = p3)
         \<and> ht_get_item (Some t4) (Some k2) n2 (Some a) (Some b) =
             Inr (HT_NOT_FOUND, Some NULL, Some HT_NO_SIZE)"
proof -
  obtain e1 u1 where
    w1: "ht_wf t1" and g1: "pfnHash t1 = pfnHash t"
    and cu1: "call_hash (pfnHash t) k1 n1 = Inr u1" and eu1: "hash e1 = u1"
    and nu1: "u1 \<notin> hash ` set (concat (ppEntries t))"
    and s1: "set (concat (ppEntries t1)) = insert e1 (set (concat (ppEntries t)))"
    and z1: "size_ht t1 = size_ht t + 1"
    and cp1: "capacity t1 = (if needs_growth t then capacity t * 2 else capacity t)"
    and l1: "last (ppEntries t1 ! (unat u1 mod unat (capacity t1))) = e1"
    and x1: "data_size e1 = d1" "f1 \<noteq> HT_TRANSIENT \<longrightarrow> pData e1 = p1"
    by (rule ht_insert_OK_wfE [OF i1 w])
  from cu1 c1 eu1 have e1: "hash e1 = v1" by simp
  from c2 g1 have c2': "call_hash (pfnHash t1) k2 n2 = Inr v2" by simp
  obtain e2 u2 where
    w2: "ht_wf t2" and g2: "pfnHash t2 = pfnHash t1"
    and cu2: "call_hash (pfnHash t1) k2 n2 = Inr u2" and eu2: "hash e2 = u2"
    and nu2: "u2 \<notin> hash ` set (concat (ppEntries t1))"
    and s2: "set (concat (ppEntries t2)) = insert e2 (set (concat (ppEntries t1)))"
    and z2: "size_ht t2 = size_ht t1 + 1"
    and cp2: "capacity t2 = (if needs_growth t1 then capacity t1 * 2 else capacity t1)"
    and l2: "last (ppEntries t2 ! (unat u2 mod unat (capacity t2))) = e2"
    and x2: "data_size e2 = d2" "f2 \<noteq> HT_TRANSIENT \<longrightarrow> pData e2 = p2"
    by (rule ht_insert_OK_wfE [OF i2 w1])
  from cu2 c2' eu2 nu2 have e2: "hash e2 = v2"
    and n2: "v2 \<notin> hash ` set (concat (ppEntries t1))" by simp_all
  from c3 g1 g2 have c3': "call_hash (pfnHash t2) k3 n3 = Inr v3" by simp
  obtain e3 u3 where
    w3: "ht_wf t3" and g3: "pfnHash t3 = pfnHash t2"
    and cu3: "call_hash (pfnHash t2) k3 n3 = Inr u3" and eu3: "hash e3 = u3"
    and nu3: "u3 \<notin> hash ` set (concat (ppEntries t2))"
    and s3: "set (concat (ppEntries t3)) = insert e3 (set (concat (ppEntries t2)))"
    and z3: "size_ht t3 = size_ht t2 + 1"
    and cp3: "capacity t3 = (if needs_growth t2 then capacity t2 * 2 else capacity t2)"
    and lu3: "last (ppEntries t3 ! (unat u3 mod unat (capacity t3))) = e3"
    and x3: "data_size e3 = d3" "f3 \<noteq> HT_TRANSIENT \<longrightarrow> pData e3 = p3"
    by (rule ht_insert_OK_wfE [OF i3 w2])
  from cu3 c3' eu3 nu3 lu3 have e3: "hash e3 = v3"
    and n3: "v3 \<notin> hash ` set (concat (ppEntries t2))"
    and l3: "last (ppEntries t3 ! (unat v3 mod unat (capacity t3))) = e3" by simp_all
  have f3: "pfnHash t3 = pfnHash t" using g1 g2 g3 by simp
  have m1: "e1 \<in> set (concat (ppEntries t3))" using s1 s2 s3 by (simp del: set_concat)
  have m2: "e2 \<in> set (concat (ppEntries t3))" using s2 s3 by (simp del: set_concat)
  have m3: "e3 \<in> set (concat (ppEntries t3))" using s3 by (simp del: set_concat)
  have v12: "v1 \<noteq> v2" using n2 s1 e1 by (auto simp del: set_concat)
  have v23: "v2 \<noteq> v3" using n3 s2 e2 by (auto simp del: set_concat)
  let ?i = "unat v2 mod unat (capacity t3)"
  have i: "?i < length (ppEntries t3)" by (rule wf_in_range [OF w3])
  have "find_entry t3 v2 = Some e2" using find_entry_Some_iff [OF w3, of v2 e2] m2 e2 by blast
  then have in2: "e2 \<in> set (ppEntries t3 ! ?i)"
    unfolding find_entry_def using find_SomeD2 by fastforce
  then obtain A B where AB: "ppEntries t3 ! ?i = A @ e2 # B" by (meson split_list)
  have "B \<noteq> []"
  proof
    assume "B = []"
    with AB have "last (ppEntries t3 ! ?i) = e2" by simp
    with l3 b23 have "e3 = e2" by simp
    with e2 e3 v23 show False by simp
  qed
  then have ab: "A = [] \<or> B \<noteq> []" by simp
  from c2 f3 have ch2: "call_hash (pfnHash t3) k2 n2 = Inr v2" by simp
  from c1 f3 have ch1: "call_hash (pfnHash t3) k1 n1 = Inr v1" by simp
  from c3 f3 have ch3: "call_hash (pfnHash t3) k3 n3 = Inr v3" by simp
  let ?t4 = "removed t3 v2"
  have rm: "ht_remove (Some t3) (Some k2) n2 h3 = Inr (HT_OK, Some ?t4, free_item e2 h3)"
    by (rule ht_remove_ok [OF w3 ch2 AB e2 ab])
  have w4: "ht_wf ?t4" by (rule wf_removed [OF w3])
  have s4: "set (concat (ppEntries ?t4)) = {e \<in> set (concat (ppEntries t3)). hash e \<noteq> v2}"
    by (rule entries_removed [OF w3])
  have f4: "pfnHash ?t4 = pfnHash t3" by (simp add: removed_fields)
  have m1': "e1 \<in> set (concat (ppEntries ?t4))" using s4 m1 e1 v12 by (simp del: set_concat)
  have m3': "e3 \<in> set (concat (ppEntries ?t4))" using s4 m3 e3 v23 by (simp del: set_concat)
  have n2': "v2 \<notin> hash ` set (concat (ppEntries ?t4))" using s4 by (auto simp del: set_concat)
  have ch1': "call_hash (pfnHash ?t4) k1 n1 = Inr v1" using ch1 f4 by simp
  have ch2': "call_hash (pfnHash ?t4) k2 n2 = Inr v2" using ch2 f4 by simp
  have ch3': "call_hash (pfnHash ?t4) k3 n3 = Inr v3" using ch3 f4 by simp
  note a1 = ht_get_item_found [OF w3 ch1 m1 e1, of a b]
  note a1' = ht_get_item_found [OF w4 ch1' m1' e1, of a b]
  note a3 = ht_get_item_found [OF w3 ch3 m3 e3, of a b]
  note a3' = ht_get_item_found [OF w4 ch3' m3' e3, of a b]
  note a2' = ht_get_item_absent [OF w4 ch2' n2', of a b]
  show ?thesis
    apply (rule exI [of _ ?t4], rule exI [of _ "free_item e2 h3"])
    apply (rule exI [of _ "pData e1"], rule exI [of _ "pData e3"])
    using rm a1 a1' a3 a3' a2' x1 x3 by (simp add: removed_fields)
qed

theorem remove_middle_of_three_witness:
  "ht_wf ex_dummy
   \<and> ht_insert (Some ex_dummy) (Some key_Test) 5 1 5 HT_STATIC ex_heap =
       Inr (HT_OK, Some ex_d1, ex_h1)
   \<and> ht_insert (Some ex_d1) (Some key_Test2) 6 1 5 HT_STATIC ex_h1 =
       Inr (HT_OK, Some ex_d2, ex_h2)
   \<and> ht_insert (Some ex_d2) (Some key_Test3) 6 1 5 HT_STATIC ex_h2 =
       Inr (HT_OK, Some ex_d3, ex_h3)
   \<and> call_hash (pfnHash ex_dummy) key_Test 5 = Inr 1
   \<and> call_hash (pfnHash ex_dummy) key_Test2 6 = Inr 32
   \<and> call_hash (pfnHash ex_dummy) key_Test3 6 = Inr 63
   \<and> unat (1::ht_hash_t) mod unat (capacity ex_d3) = unat (32::ht_hash_t) mod unat (capacity ex_d3)
   \<and> unat (32::ht_hash_t) mod unat (capacity ex_d3) = unat (63::ht_hash_t) mod unat (capacity ex_d3)
   \<and> ht_remove (Some ex_d3) (Some key_Test2) 6 ex_h3 = Inr (HT_OK, Some ex_d4, ex_h4)
   \<and> size_ht ex_d4 = 2
   \<and> ht_get_item (Some ex_d4) (Some key_Test) 5 (Some 0) (Some 0) = Inr (HT_OK, Some 1, Some 5)
   \<and> ht_get_item (Some ex_d4) (Some key_Test3) 6 (Some 0) (Some 0) = Inr (HT_OK, Some 1, Some 5)
   \<and> ht_get_item (Some ex_d4) (Some key_Test2) 6 (Some 0) (Some 0) =
       Inr (HT_NOT_FOUND, Some NULL, Some HT_NO_SIZE)"
proof -
  have i1: "ht_insert (Some ex_dummy) (Some key_Test) 5 1 5 HT_STATIC ex_heap =
       Inr (HT_OK, Some ex_d1, ex_h1)" using ex_ins1 by simp
  have i2: "ht_insert (Some ex_d1) (Some key_Test2) 6 1 5 HT_STATIC ex_h1 =
       Inr (HT_OK, Some ex_d2, ex_h2)" using ex_ins2 by simp
  have i3: "ht_insert (Some ex_d2) (Some key_Test3) 6 1 5 HT_STATIC ex_h2 =
       Inr (HT_OK, Some ex_d3, ex_h3)" using ex_ins3 by simp
  have c1: "call_hash (pfnHash ex_dummy) key_Test 5 = Inr 1"
   and c2: "call_hash (pfnHash ex_dummy) key_Test2 6 = Inr 32"
   and c3: "call_hash (pfnHash ex_dummy) key_Test3 6 = Inr 63"
    by (simp_all add: call_hash_def ex_dummy_fields dummy_hash)
  have b12: "unat (1::ht_hash_t) mod unat (capacity ex_d3) = unat (32::ht_hash_t) mod unat (capacity ex_d3)"
   and b23: "unat (32::ht_hash_t) mod unat (capacity ex_d3) = unat (63::ht_hash_t) mod unat (capacity ex_d3)"
    by (simp_all add: ex_d_fields)
  have rm: "ht_remove (Some ex_d3) (Some key_Test2) 6 ex_h3 = Inr (HT_OK, Some ex_d4, ex_h4)"
    using ex_rem [of 6] by simp
  have pol: "HT_STATIC \<noteq> HT_TRANSIENT" by simp
  from remove_middle_of_three [OF ex_dummy_wf i1 i2 i3 c1 c2 c3 b12 b23, of 0 0]
  obtain t4 h4 q1 q3 where
    r: "ht_remove (Some ex_d3) (Some key_Test2) 6 ex_h3 = Inr (HT_OK, Some t4, h4)"
    and g1: "ht_get_item (Some t4) (Some key_Test) 5 (Some 0) (Some 0) = Inr (HT_OK, Some q1, Some 5)"
    and q1: "HT_STATIC \<noteq> HT_TRANSIENT \<longrightarrow> q1 = 1"
    and g3: "ht_get_item (Some t4) (Some key_Test3) 6 (Some 0) (Some 0) = Inr (HT_OK, Some q3, Some 5)"
    and q3: "HT_STATIC \<noteq> HT_TRANSIENT \<longrightarrow> q3 = 1"
    and g2: "ht_get_item (Some t4) (Some key_Test2) 6 (Some 0) (Some 0) =
             Inr (HT_NOT_FOUND, Some NULL, Some HT_NO_SIZE)"
    by blast
  from r rm have t4: "t4 = ex_d4" by simp
  from g1 g2 g3 q1 q3 pol t4 have
    "ht_get_item (Some ex_d4) (Some key_Test) 5 (Some 0) (Some 0) = Inr (HT_OK, Some 1, Some 5)
   \<and> ht_get_item (Some ex_d4) (Some key_Test3) 6 (Some 0) (Some 0) = Inr (HT_OK, Some 1, Some 5)
   \<and> ht_get_item (Some ex_d4) (Some key_Test2) 6 (Some 0) (Some 0) =
       Inr (HT_NOT_FOUND, Some NULL, Some HT_NO_SIZE)"
    by simp
  moreover have "size_ht ex_d4 = 2" by (simp add: ex_d_fields)
  ultimately show ?thesis using ex_dummy_wf i1 i2 i3 c1 c2 c3 b12 b23 rm by blast
qed

text \<open>
  C8 as it stands does not hold: the test for a \<open>NULL\<close> function comes before the test of
  the size. \<open>ex_table1\<close> is the table of \<open>ht_init\<close> after one \<open>ht_insert\<close>, so it holds
  one entry; \<open>ht_set_hash_func\<close> called on it with a \<open>NULL\<close> function returns
  \<open>HT_ARG_NULL\<close>, which is 13, and not \<open>HT_MISUSE\<close>, which is 15.
\<close>

theorem ht_set_hash_func_counterexample:
  "ht_init False ex_heap0 = Inr (HT_OK, Some ex_table, ex_heap)
   \<and> ht_insert (Some ex_table) (Some key_Test) 5 1 5 HT_STATIC ex_heap =
       Inr (HT_OK, Some ex_table1, ex_heap1)
   \<and> ht_get_size (Some ex_table1) = 1
   \<and> ht_set_hash_func (Some ex_table1) None = (HT_ARG_NULL, Some ex_table1)
   \<and> HT_ARG_NULL = 13 \<and> HT_MISUSE = 15"
  using ex_init ex_insert
  by (simp add: ht_set_hash_func_def ht_get_size_def ex_table1_def appended_hash_fields
      ex_table_def ht_codes)

text \<open>
  C8 (as amended). For a table whose \<open>size\<close> is the number of its entries and that holds
  an entry, \<open>ht_set_hash_func\<close> returns \<open>HT_MISUSE\<close> when it is given a function and
  \<open>HT_ARG_NULL\<close> when the function is \<open>NULL\<close>, and in both cases the table, with its
  hash function and its entries, is as before. For a well-formed empty table and a function
  \<open>fn\<close>, it returns \<open>HT_OK\<close> and the table with \<open>fn\<close> as hash function; and after
  any further calls of \<open>ht_insert\<close>, \<open>ht_remove\<close> and \<open>ht_set_hash_func\<close> (at most
  1000000000, none of which faults) the table uses the function of the last call of
  \<open>ht_set_hash_func\<close> that returned \<open>HT_OK\<close>, which is \<open>fn\<close> when no further call
  of \<open>ht_set_hash_func\<close> was made: \<open>ht_get_item\<close> returns the pointer and size of the
  entry whose hash is the value of that function at the key, and \<open>HT_NOT_FOUND\<close> when
  there is none; an \<open>ht_insert\<close> that returns \<open>HT_OK\<close> leaves the function in place
  and stores an entry whose hash is the value of that function at the key, which
  \<open>ht_get_item\<close> then finds with the size given.
\<close>

theorem ht_set_hash_func_result:
  "(unat (size_ht t) = length (concat (ppEntries t)) \<and> concat (ppEntries t) \<noteq> [] \<longrightarrow>
      ht_set_hash_func (Some t) pFn = (if pFn = None then HT_ARG_NULL else HT_MISUSE, Some t))
   \<and> (ht_wf t \<and> unat (size_ht t) = length (concat (ppEntries t)) \<and> concat (ppEntries t) = []
       \<and> run ops (Some (t\<lparr>pfnHash := Some fn\<rparr>), h) = Inr (Some t2, h2)
       \<and> length ops \<le> 1000000000 \<longrightarrow>
      ht_set_hash_func (Some t) (Some fn) = (HT_OK, Some (t\<lparr>pfnHash := Some fn\<rparr>))
      \<and> pfnHash t2 = hash_func_after ops (Some fn) (Some (t\<lparr>pfnHash := Some fn\<rparr>), h)
      \<and> ((\<forall>g. SetHashFunc g \<notin> set ops) \<longrightarrow> pfnHash t2 = Some fn)
      \<and> (\<forall>key ksz a b hv. call_hash (pfnHash t2) key ksz = Inr hv \<longrightarrow>
            (\<forall>e \<in> set (concat (ppEntries t2)). hash e = hv \<longrightarrow>
               ht_get_item (Some t2) (Some key) ksz (Some a) (Some b) =
                 Inr (HT_OK, Some (pData e), Some (data_size e)))
            \<and> (hv \<notin> hash ` set (concat (ppEntries t2)) \<longrightarrow>
               ht_get_item (Some t2) (Some key) ksz (Some a) (Some b) =
                 Inr (HT_NOT_FOUND, Some NULL, Some HT_NO_SIZE)))
      \<and> (\<forall>key ksz p d pol h' t3 h3 a b.
            ht_insert (Some t2) (Some key) ksz p d pol h' = Inr (HT_OK, Some t3, h3) \<longrightarrow>
            pfnHash t3 = pfnHash t2
            \<and> (\<exists>e q. e \<in> set (concat (ppEntries t3)) \<and> e \<notin> set (concat (ppEntries t2))
                 \<and> call_hash (pfnHash t2) key ksz = Inr (hash e)
                 \<and> ht_get_item (Some t3) (Some key) ksz (Some a) (Some b) =
                     Inr (HT_OK, Some q, Some d))))"
proof -
  let ?t0 = "t\<lparr>pfnHash := Some fn\<rparr>"
  have first: "ht_set_hash_func (Some t) pFn =
                 (if pFn = None then HT_ARG_NULL else HT_MISUSE, Some t)"
    if a: "unat (size_ht t) = length (concat (ppEntries t)) \<and> concat (ppEntries t) \<noteq> []"
  proof -
    from a have "unat (size_ht t) \<noteq> 0" by simp
    then have "size_ht t > 0" by (simp add: unat_eq_0 word_greater_zero_iff)
    then show ?thesis by (cases pFn) (simp_all add: ht_set_hash_func_def)
  qed
  have second:
     "ht_set_hash_func (Some t) (Some fn) = (HT_OK, Some ?t0)
      \<and> pfnHash t2 = hash_func_after ops (Some fn) (Some ?t0, h)
      \<and> ((\<forall>g. SetHashFunc g \<notin> set ops) \<longrightarrow> pfnHash t2 = Some fn)
      \<and> (\<forall>key ksz a b hv. call_hash (pfnHash t2) key ksz = Inr hv \<longrightarrow>
            (\<forall>e \<in> set (concat (ppEntries t2)). hash e = hv \<longrightarrow>
               ht_get_item (Some t2) (Some key) ksz (Some a) (Some b) =
                 Inr (HT_OK, Some (pData e), Some (data_size e)))
            \<and> (hv \<notin> hash ` set (concat (ppEntries t2)) \<longrightarrow>
               ht_get_item (Some t2) (Some key) ksz (Some a) (Some b) =
                 Inr (HT_NOT_FOUND, Some NULL, Some HT_NO_SIZE)))
      \<and> (\<forall>key ksz p d pol h' t3 h3 a b.
            ht_insert (Some t2) (Some key) ksz p d pol h' = Inr (HT_OK, Some t3, h3) \<longrightarrow>
            pfnHash t3 = pfnHash t2
            \<and> (\<exists>e q. e \<in> set (concat (ppEntries t3)) \<and> e \<notin> set (concat (ppEntries t2))
                 \<and> call_hash (pfnHash t2) key ksz = Inr (hash e)
                 \<and> ht_get_item (Some t3) (Some key) ksz (Some a) (Some b) =
                     Inr (HT_OK, Some q, Some d)))"
    if a: "ht_wf t \<and> unat (size_ht t) = length (concat (ppEntries t))
       \<and> concat (ppEntries t) = []
       \<and> run ops (Some ?t0, h) = Inr (Some t2, h2) \<and> length ops \<le> 1000000000"
  proof -
    from a have w: "ht_wf t" and s: "unat (size_ht t) = length (concat (ppEntries t))"
      and e: "concat (ppEntries t) = []" and rn: "run ops (Some ?t0, h) = Inr (Some t2, h2)"
      and ln: "length ops \<le> 1000000000" by simp_all
    have ok: "ht_set_hash_func (Some t) (Some fn) = (HT_OK, Some ?t0)"
      by (rule empty_set_hash_holds(1) [OF w s e])
    have h0: "ht_holds [] ?t0" by (rule empty_set_hash_holds(2) [OF w s e])
    have b: "length ([]::ht_entry list) + length ops \<le> 1000000000" using ln by simp
    from run_hash_func [OF rn h0 b]
    have F: "pfnHash t2 = hash_func_after ops (Some fn) (Some ?t0, h)" by simp
    have same: "(\<forall>g. SetHashFunc g \<notin> set ops) \<longrightarrow> pfnHash t2 = Some fn"
      using F hash_func_after_same [of ops "Some fn" "(Some ?t0, h)"] by simp
    from run_holds [OF rn h0 b] obtain es2 where h2: "ht_holds es2 t2" by auto
    then have "ht_rep es2 t2" by (simp add: ht_holds_def)
    then have w2: "ht_wf t2" by (rule rep_wf)
    have get: "\<forall>key ksz a b hv. call_hash (pfnHash t2) key ksz = Inr hv \<longrightarrow>
            (\<forall>e \<in> set (concat (ppEntries t2)). hash e = hv \<longrightarrow>
               ht_get_item (Some t2) (Some key) ksz (Some a) (Some b) =
                 Inr (HT_OK, Some (pData e), Some (data_size e)))
            \<and> (hv \<notin> hash ` set (concat (ppEntries t2)) \<longrightarrow>
               ht_get_item (Some t2) (Some key) ksz (Some a) (Some b) =
                 Inr (HT_NOT_FOUND, Some NULL, Some HT_NO_SIZE))"
      using ht_get_item_found [OF w2] ht_get_item_absent [OF w2] by blast
    have put: "\<forall>key ksz p d pol h' t3 h3 a b.
            ht_insert (Some t2) (Some key) ksz p d pol h' = Inr (HT_OK, Some t3, h3) \<longrightarrow>
            pfnHash t3 = pfnHash t2
            \<and> (\<exists>e q. e \<in> set (concat (ppEntries t3)) \<and> e \<notin> set (concat (ppEntries t2))
                 \<and> call_hash (pfnHash t2) key ksz = Inr (hash e)
                 \<and> ht_get_item (Some t3) (Some key) ksz (Some a) (Some b) =
                     Inr (HT_OK, Some q, Some d))"
    proof (intro allI impI)
      fix key ksz p d pol h' t3 h3 a b
      assume ins: "ht_insert (Some t2) (Some key) ksz p d pol h' = Inr (HT_OK, Some t3, h3)"
      obtain e hv where
        w3: "ht_wf t3" and g3: "pfnHash t3 = pfnHash t2"
        and ch: "call_hash (pfnHash t2) key ksz = Inr hv" and eh: "hash e = hv"
        and nu: "hv \<notin> hash ` set (concat (ppEntries t2))"
        and s3: "set (concat (ppEntries t3)) = insert e (set (concat (ppEntries t2)))"
        and z3: "size_ht t3 = size_ht t2 + 1"
        and cp: "capacity t3 = (if needs_growth t2 then capacity t2 * 2 else capacity t2)"
        and l3: "last (ppEntries t3 ! (unat hv mod unat (capacity t3))) = e"
        and x3: "data_size e = d" "pol \<noteq> HT_TRANSIENT \<longrightarrow> pData e = p"
        by (rule ht_insert_OK_wfE [OF ins w2])
      have m3: "e \<in> set (concat (ppEntries t3))" using s3 by (metis insertI1)
      have n2: "e \<notin> set (concat (ppEntries t2))" using nu eh by (metis imageI)
      have c3: "call_hash (pfnHash t3) key ksz = Inr hv" using ch g3 by simp
      from ht_get_item_found [OF w3 c3 m3 eh, of a b] x3(1)
      have "ht_get_item (Some t3) (Some key) ksz (Some a) (Some b) =
              Inr (HT_OK, Some (pData e), Some d)" by simp
      with g3 m3 n2 ch eh
      show "pfnHash t3 = pfnHash t2
            \<and> (\<exists>e q. e \<in> set (concat (ppEntries t3)) \<and> e \<notin> set (concat (ppEntries t2))
                 \<and> call_hash (pfnHash t2) key ksz = Inr (hash e)
                 \<and> ht_get_item (Some t3) (Some key) ksz (Some a) (Some b) =
                     Inr (HT_OK, Some q, Some d))"
        by blast
    qed
    from ok F same get put show ?thesis by (intro conjI)
  qed
  show ?thesis
  proof (rule conjI)
    show "unat (size_ht t) = length (concat (ppEntries t)) \<and> concat (ppEntries t) \<noteq> [] \<longrightarrow>
      ht_set_hash_func (Some t) pFn = (if pFn = None then HT_ARG_NULL else HT_MISUSE, Some t)"
      by (rule impI) (rule first)
  next
    from second show "ht_wf t \<and> unat (size_ht t) = length (concat (ppEntries t))
       \<and> concat (ppEntries t) = []
       \<and> run ops (Some ?t0, h) = Inr (Some t2, h2) \<and> length ops \<le> 1000000000 \<longrightarrow>
      ht_set_hash_func (Some t) (Some fn) = (HT_OK, Some ?t0)
      \<and> pfnHash t2 = hash_func_after ops (Some fn) (Some ?t0, h)
      \<and> ((\<forall>g. SetHashFunc g \<notin> set ops) \<longrightarrow> pfnHash t2 = Some fn)
      \<and> (\<forall>key ksz a b hv. call_hash (pfnHash t2) key ksz = Inr hv \<longrightarrow>
            (\<forall>e \<in> set (concat (ppEntries t2)). hash e = hv \<longrightarrow>
               ht_get_item (Some t2) (Some key) ksz (Some a) (Some b) =
                 Inr (HT_OK, Some (pData e), Some (data_size e)))
            \<and> (hv \<notin> hash ` set (concat (ppEntries t2)) \<longrightarrow>
               ht_get_item (Some t2) (Some key) ksz (Some a) (Some b) =
                 Inr (HT_NOT_FOUND, Some NULL, Some HT_NO_SIZE)))
      \<and> (\<forall>key ksz p d pol h' t3 h3 a b.
            ht_insert (Some t2) (Some key) ksz p d pol h' = Inr (HT_OK, Some t3, h3) \<longrightarrow>
            pfnHash t3 = pfnHash t2
            \<and> (\<exists>e q. e \<in> set (concat (ppEntries t3)) \<and> e \<notin> set (concat (ppEntries t2))
                 \<and> call_hash (pfnHash t2) key ksz = Inr (hash e)
                 \<and> ht_get_item (Some t3) (Some key) ksz (Some a) (Some b) =
                     Inr (HT_OK, Some q, Some d)))"
      by (rule impI)
  qed
qed

theorem ht_set_hash_func_result_witness:
  "unat (size_ht ex_table1) = length (concat (ppEntries ex_table1))
   \<and> concat (ppEntries ex_table1) \<noteq> []
   \<and> ht_set_hash_func (Some ex_table1) (Some dummy_hahser) = (HT_MISUSE, Some ex_table1)
   \<and> ht_set_hash_func (Some ex_table1) None = (HT_ARG_NULL, Some ex_table1)
   \<and> ht_wf ex_table \<and> unat (size_ht ex_table) = length (concat (ppEntries ex_table))
   \<and> concat (ppEntries ex_table) = []
   \<and> run (Insert (Some key_Test) 5 1 5 HT_STATIC # ex_ops) (Some ex_dummy, ex_heap) =
       Inr (Some ex_d4, ex_h4)
   \<and> length (Insert (Some key_Test) 5 1 5 HT_STATIC # ex_ops) \<le> 1000000000
   \<and> ht_set_hash_func (Some ex_table) (Some dummy_hahser) = (HT_OK, Some ex_dummy)
   \<and> pfnHash ex_d4 = Some dummy_hahser
   \<and> call_hash (pfnHash ex_d4) key_Test 5 = Inr 1
   \<and> ex_e1 \<in> set (concat (ppEntries ex_d4)) \<and> hash ex_e1 = 1
   \<and> ht_get_item (Some ex_d4) (Some key_Test) 5 (Some 0) (Some 0) = Inr (HT_OK, Some 1, Some 5)
   \<and> call_hash (pfnHash ex_d4) key_Test2 6 = Inr 32
   \<and> 32 \<notin> hash ` set (concat (ppEntries ex_d4))
   \<and> ht_get_item (Some ex_d4) (Some key_Test2) 6 (Some 0) (Some 0) =
       Inr (HT_NOT_FOUND, Some NULL, Some HT_NO_SIZE)
   \<and> ht_insert (Some ex_d4) (Some key_Test2) 6 1 5 HT_STATIC ex_h4 =
       Inr (HT_OK, Some ex_d5, ex_h5)
   \<and> pfnHash ex_d5 = Some dummy_hahser
   \<and> ht_get_item (Some ex_d5) (Some key_Test2) 6 (Some 0) (Some 0) = Inr (HT_OK, Some 1, Some 5)"
proof -
  let ?ops = "Insert (Some key_Test) 5 1 5 HT_STATIC # ex_ops"
  have rn: "run ?ops (Some (ex_table\<lparr>pfnHash := Some dummy_hahser\<rparr>), ex_heap) =
              Inr (Some ex_d4, ex_h4)"
    using ex_ins1 ex_run by (simp add: ex_dummy_def)
  have ln: "length ?ops \<le> 1000000000" by (simp add: ex_ops_def)
  have ns: "\<forall>g. SetHashFunc g \<notin> set ?ops" by (simp add: ex_ops_def)
  have m: "ht_set_hash_func (Some ex_table1) (Some dummy_hahser) = (HT_MISUSE, Some ex_table1)"
    using ht_set_hash_func_result [of ex_table1 "Some dummy_hahser"] ex_table1_sized by simp
  have n: "ht_set_hash_func (Some ex_table1) None = (HT_ARG_NULL, Some ex_table1)"
    using ht_set_hash_func_result [of ex_table1 None] ex_table1_sized by simp
  from ht_set_hash_func_result [of ex_table "Some dummy_hahser" ?ops dummy_hahser ex_heap ex_d4 ex_h4]
       ex_table_wf ex_table_sized rn ln
  have ok: "ht_set_hash_func (Some ex_table) (Some dummy_hahser) =
              (HT_OK, Some (ex_table\<lparr>pfnHash := Some dummy_hahser\<rparr>))"
    and same: "(\<forall>g. SetHashFunc g \<notin> set ?ops) \<longrightarrow> pfnHash ex_d4 = Some dummy_hahser"
    and get: "\<forall>key ksz a b hv. call_hash (pfnHash ex_d4) key ksz = Inr hv \<longrightarrow>
            (\<forall>e \<in> set (concat (ppEntries ex_d4)). hash e = hv \<longrightarrow>
               ht_get_item (Some ex_d4) (Some key) ksz (Some a) (Some b) =
                 Inr (HT_OK, Some (pData e), Some (data_size e)))
            \<and> (hv \<notin> hash ` set (concat (ppEntries ex_d4)) \<longrightarrow>
               ht_get_item (Some ex_d4) (Some key) ksz (Some a) (Some b) =
                 Inr (HT_NOT_FOUND, Some NULL, Some HT_NO_SIZE))"
    and put: "\<forall>key ksz p d pol h' t3 h3 a b.
            ht_insert (Some ex_d4) (Some key) ksz p d pol h' = Inr (HT_OK, Some t3, h3) \<longrightarrow>
            pfnHash t3 = pfnHash ex_d4
            \<and> (\<exists>e q. e \<in> set (concat (ppEntries t3)) \<and> e \<notin> set (concat (ppEntries ex_d4))
                 \<and> call_hash (pfnHash ex_d4) key ksz = Inr (hash e)
                 \<and> ht_get_item (Some t3) (Some key) ksz (Some a) (Some b) =
                     Inr (HT_OK, Some q, Some d))"
    by blast+
  from same ns have f4: "pfnHash ex_d4 = Some dummy_hahser" by blast
  have c1: "call_hash (pfnHash ex_d4) key_Test 5 = Inr 1"
   and c2: "call_hash (pfnHash ex_d4) key_Test2 6 = Inr 32"
    by (simp_all add: f4 call_hash_def dummy_hash)
  have m1: "ex_e1 \<in> set (concat (ppEntries ex_d4))" by (simp only: ex_d4_entries) simp
  have n2: "(32::ht_hash_t) \<notin> hash ` set (concat (ppEntries ex_d4))"
    by (simp only: ex_d4_entries) (simp add: ex_e_hash)
  from get c1 m1 ex_e_hash(1)
  have "ht_get_item (Some ex_d4) (Some key_Test) 5 (Some 0) (Some 0) =
          Inr (HT_OK, Some (pData ex_e1), Some (data_size ex_e1))" by blast
  then have g1: "ht_get_item (Some ex_d4) (Some key_Test) 5 (Some 0) (Some 0) =
                   Inr (HT_OK, Some 1, Some 5)"
    by (simp add: ex_e1_def stored_entry_def)
  from get c2 n2
  have g2: "ht_get_item (Some ex_d4) (Some key_Test2) 6 (Some 0) (Some 0) =
              Inr (HT_NOT_FOUND, Some NULL, Some HT_NO_SIZE)" by blast
  have i5: "ht_insert (Some ex_d4) (Some key_Test2) 6 1 5 HT_STATIC ex_h4 =
              Inr (HT_OK, Some ex_d5, ex_h5)" using ex_ins5 by simp
  have r5: "ht_rep [ex_e1, ex_e3, ex_e5] ex_d5" using ex_ins5 by simp
  from put i5 have f5: "pfnHash ex_d5 = pfnHash ex_d4" by blast
  have c5: "call_hash (pfnHash ex_d5) key_Test2 6 = Inr 32" using f5 c2 by simp
  have m5: "ex_e5 \<in> set (concat (ppEntries ex_d5))" by (simp only: rep_set [OF r5]) simp
  have h5: "hash ex_e5 = 32" by (simp add: ex_e5_def stored_entry_def)
  from ht_get_item_found [OF rep_wf [OF r5] c5 m5 h5, of 0 0]
  have g5: "ht_get_item (Some ex_d5) (Some key_Test2) 6 (Some 0) (Some 0) =
              Inr (HT_OK, Some 1, Some 5)"
    by (simp add: ex_e5_def stored_entry_def)
  from m n ok ex_table1_sized ex_table_wf ex_table_sized rn ln f4 c1 m1 ex_e_hash(1) g1 c2 n2 g2
       i5 f5 g5
  show ?thesis by (simp add: ex_dummy_def del: set_concat)
qed

text \<open>
  C9. \<open>ht_has_key\<close> returns 0 when the table handle is \<open>NULL\<close> and when the key pointer
  is \<open>NULL\<close>. For a table whose bucket array is as long as its capacity, which is not
  zero, and a key that the hash function of the table hashes to \<open>hv\<close>, it returns 1 if an
  entry with hash \<open>hv\<close> stands in the chain of bucket \<open>hv mod capacity\<close> and 0 if not.
  The function has no table among its results: the code writes nothing through \<open>pHt\<close>.
\<close>

theorem ht_has_key_result:
  "ht_has_key None pKey_arg ksz = Inr 0
   \<and> ht_has_key pHt None ksz = Inr 0
   \<and> (ht_geom t \<and> call_hash (pfnHash t) key ksz = Inr hv \<longrightarrow>
        ht_has_key (Some t) (Some key) ksz =
          Inr (if hv \<in> hash ` set (ppEntries t ! (unat hv mod unat (capacity t))) then 1 else 0))"
proof -
  have "ht_has_key (Some t) (Some key) ksz =
          Inr (if hv \<in> hash ` set (ppEntries t ! (unat hv mod unat (capacity t))) then 1 else 0)"
    if g: "ht_geom t" and ch: "call_hash (pfnHash t) key ksz = Inr hv"
  proof (cases "find_entry t hv")
    case None
    then have "hv \<notin> hash ` set (ppEntries t ! (unat hv mod unat (capacity t)))"
      by (auto simp: find_entry_def find_None_iff)
    with ht_has_key_eq [OF g ch] None show ?thesis by simp
  next
    case (Some e)
    then have "e \<in> set (ppEntries t ! (unat hv mod unat (capacity t))) \<and> hash e = hv"
      unfolding find_entry_def by (rule find_SomeD2)
    then have "hv \<in> hash ` set (ppEntries t ! (unat hv mod unat (capacity t)))"
      by blast
    with ht_has_key_eq [OF g ch] Some show ?thesis by simp
  qed
  then show ?thesis by (simp add: ht_has_key_def split: option.splits)
qed

theorem ht_has_key_result_witness:
  "ht_geom ex_table1 \<and> call_hash (pfnHash ex_table1) key_Test 5 = Inr 5995370896889781038
   \<and> ht_has_key (Some ex_table1) (Some key_Test) 5 = Inr 1
   \<and> ht_has_key None (Some key_Test) 5 = Inr 0
   \<and> ht_has_key (Some ex_table1) None 5 = Inr 0"
proof -
  have c: "ppEntries ex_table1 ! (unat (5995370896889781038 :: ht_hash_t) mod unat (capacity ex_table1))
           = [ex_entry]"
    by (simp add: ex_table1_def appended_def ex_table_def ex_entry_def)
  from ht_has_key_result [of "Some key_Test" 5 "Some ex_table1" ex_table1 key_Test 5995370896889781038]
  show ?thesis
    using wf_geom [OF ex_table1_wf] ex_table1_hash c by (simp add: ex_entry_def)
qed

text \<open>
  C10. For every table handle, \<open>NULL\<close> or not, \<open>ht_strk_has_key\<close> called with a
  \<open>NULL\<close> key returns \<open>HT_ARG_NULL\<close>, which is 13 and so not zero, whereas
  \<open>ht_has_key\<close> returns 0 for a \<open>NULL\<close> key: a caller that tests the result of the
  wrapper for truth takes a \<open>NULL\<close> key for a key that is present.
\<close>

theorem ht_strk_has_key_null_key:
  "ht_strk_has_key pHt None = Inr HT_ARG_NULL \<and> HT_ARG_NULL = 13 \<and> HT_ARG_NULL \<noteq> 0
   \<and> ht_has_key pHt None ksz = Inr 0"
  by (simp add: ht_strk_has_key_def ht_has_key_def HT_ARG_NULL_def split: option.splits)
end
